theory Spec2Isabelle
  imports Main "HOL-Library.Multiset"
begin

section \<open>Pin My Workflows: a shallow embedding of main.go\<close>

text \<open>
  The source file main.go holds two revisions of the tool. The first one (lines 1 to 325)
  resolves every reference through the git reference it names and follows nested
  annotated tags; the second one (lines 326 to 693) adds the branch \<open>main\<close>, the
  discovery of the latest tag with a given prefix and the indentation of the rewritten
  line. The two revisions differ in getCommitSha and in the line that processFile writes.
  A name without a suffix is a function of the second revision. getCommitSha of the first
  revision is \<open>getCommitSha_nested\<close> here, with its loop \<open>getCommitSha_loop\<close>, and
  processFile of the first revision is \<open>processFile_first\<close>, with the rounds of its loop
  in \<open>process_line_first\<close>.

  Strings are Go strings: sequences of bytes, a \<open>char\<close> being one byte.
\<close>

subsection \<open>Strings\<close>

text \<open>\<open>strings.Split(s, sep)\<close> for a separator of one byte: never empty, \<open>[""]\<close> on \<open>""\<close>.\<close>

fun Split :: "char \<Rightarrow> string \<Rightarrow> string list" where
  "Split sep [] = [] # []"
| "Split sep (c # cs) =
     (if c = sep then [] # Split sep cs
      else (case Split sep cs of [] \<Rightarrow> [c] # [] | p # ps \<Rightarrow> (c # p) # ps))"

text \<open>\<open>strings.Join(parts, sep)\<close> for a separator of one byte.\<close>

fun Join :: "char \<Rightarrow> string list \<Rightarrow> string" where
  "Join sep [] = []"
| "Join sep [p] = p"
| "Join sep (p # q # ps) = p @ sep # Join sep (q # ps)"

text \<open>\<open>strings.HasPrefix\<close> and \<open>strings.TrimPrefix\<close>.\<close>

fun HasPrefix :: "string \<Rightarrow> string \<Rightarrow> bool" where
  "HasPrefix s [] = True"
| "HasPrefix [] (p # ps) = False"
| "HasPrefix (c # cs) (p # ps) = (c = p \<and> HasPrefix cs ps)"

definition TrimPrefix :: "string \<Rightarrow> string \<Rightarrow> string" where
  "TrimPrefix s p = (if HasPrefix s p then drop (length p) s else s)"

subsection \<open>Reading a number: \<open>fmt.Sscanf(part, "%d", &num)\<close>\<close>

definition is_digit :: "char \<Rightarrow> bool" where
  "is_digit c = (c \<in> set ''0123456789'')"

definition digit_val :: "char \<Rightarrow> nat" where
  "digit_val c = of_char c - 48"

definition decimal :: "string \<Rightarrow> nat" where
  "decimal ds = foldl (\<lambda>a c. 10 * a + digit_val c) 0 ds"

text \<open>
  The scanner first skips white space (\<open>SkipSpace\<close> of package fmt): the bytes 9, 11, 12,
  13 and 32 and the UTF-8 forms of U+0085, U+00A0, U+1680, U+2000 to U+200A, U+2028,
  U+2029, U+202F, U+205F and U+3000. A newline (byte 10) is an error for \<open>Sscanf\<close>:
  \<open>None\<close>.
\<close>

definition space1 :: "char \<Rightarrow> bool" where
  "space1 a = (a \<in> {CHR 0x09, CHR 0x0B, CHR 0x0C, CHR 0x0D, CHR 0x20})"

definition space2 :: "char \<Rightarrow> char \<Rightarrow> bool" where
  "space2 a b = (a = CHR 0xC2 \<and> (b = CHR 0x85 \<or> b = CHR 0xA0))"

definition space3 :: "char \<Rightarrow> char \<Rightarrow> char \<Rightarrow> bool" where
  "space3 a b c =
     ((a = CHR 0xE1 \<and> b = CHR 0x9A \<and> c = CHR 0x80) \<or>
      (a = CHR 0xE2 \<and> b = CHR 0x80 \<and>
         (c \<in> {CHR 0x80, CHR 0x81, CHR 0x82, CHR 0x83, CHR 0x84, CHR 0x85, CHR 0x86,
                CHR 0x87, CHR 0x88, CHR 0x89, CHR 0x8A, CHR 0xA8, CHR 0xA9, CHR 0xAF})) \<or>
      (a = CHR 0xE2 \<and> b = CHR 0x81 \<and> c = CHR 0x9F) \<or>
      (a = CHR 0xE3 \<and> b = CHR 0x80 \<and> c = CHR 0x80))"

fun SkipSpace :: "string \<Rightarrow> string option" where
  "SkipSpace [] = Some []"
| "SkipSpace [a] =
     (if a = CHR 0x0A then None else if space1 a then Some [] else Some [a])"
| "SkipSpace [a, b] =
     (if a = CHR 0x0A then None else if space1 a then SkipSpace [b]
      else if space2 a b then Some [] else Some [a, b])"
| "SkipSpace (a # b # c # cs) =
     (if a = CHR 0x0A then None else if space1 a then SkipSpace (b # c # cs)
      else if space2 a b then SkipSpace (c # cs)
      else if space3 a b c then SkipSpace cs
      else Some (a # b # c # cs))"

text \<open>
  Then an optional sign and one or more decimal digits are read and given to
  \<open>strconv.ParseInt(tok, 10, 64)\<close>; what follows the digits is not looked at. The source
  ignores the error of \<open>Sscanf\<close>, so on every failure (a newline in the leading space, no
  digit, a value outside the 64-bit \<open>int\<close> of the targets of the Makefile) the variable
  keeps its zero value.
\<close>

definition Sscanf_d :: "string \<Rightarrow> int" where
  "Sscanf_d s =
     (case SkipSpace s of
        None \<Rightarrow> 0
      | Some r \<Rightarrow>
          (let neg = (r \<noteq> [] \<and> hd r = CHR ''-'');
               r1 = (if r \<noteq> [] \<and> (hd r = CHR ''+'' \<or> hd r = CHR ''-'') then tl r else r);
               ds = takeWhile is_digit r1;
               v = (if neg then - int (decimal ds) else int (decimal ds))
           in if ds = [] then 0
              else if - (2 ^ 63) \<le> v \<and> v < 2 ^ 63 then v
              else 0))"

subsection \<open>compareVersions (lines 433 to 455)\<close>

function compareVersions_loop :: "string list \<Rightarrow> string list \<Rightarrow> nat \<Rightarrow> nat \<Rightarrow> int" where
  "compareVersions_loop parts1 parts2 maxLen i =
     (if i < maxLen then
        (let num1 = (if i < length parts1 then Sscanf_d (parts1 ! i) else 0);
             num2 = (if i < length parts2 then Sscanf_d (parts2 ! i) else 0)
         in if num1 > num2 then 1
            else if num1 < num2 then - 1
            else compareVersions_loop parts1 parts2 maxLen (i + 1))
      else 0)"
  by pat_completeness auto
termination
  by (relation "measure (\<lambda>(parts1, parts2, maxLen, i). maxLen - i)") auto

declare compareVersions_loop.simps [simp del]

definition compareVersions :: "string \<Rightarrow> string \<Rightarrow> int" where
  "compareVersions v1 v2 =
     (let parts1 = Split (CHR ''.'') v1;
          parts2 = Split (CHR ''.'') v2;
          maxLen = (if length parts2 > length parts1 then length parts2 else length parts1)
      in compareVersions_loop parts1 parts2 maxLen 0)"

subsection \<open>The remote service, the terminal and the file system\<close>

text \<open>
  What \<open>http.Get\<close> and the JSON decoder give for a URL. \<open>Failed\<close>: the request itself
  fails. \<open>Response status body\<close>: an answer with a status code and a body, which is
  \<open>JsonObject typ sha\<close> (a document whose member \<open>object\<close> has the type \<open>typ\<close> and the
  identifier \<open>sha\<close>), \<open>JsonTags\<close> (a list of tags, each a name and the identifier of its
  commit) or \<open>Malformed\<close> (anything the decoder rejects).
\<close>

datatype body = Malformed | JsonObject string string | JsonTags "(string \<times> string) list"

datatype reply = Failed | Response nat body

datatype error =
    TransportError
  | StatusError nat
  | DecodeError
  | NoTagsWithPrefix string
  | CouldNotResolve string

fun decode_object :: "body \<Rightarrow> (string \<times> string) option" where
  "decode_object (JsonObject typ sha) = Some (typ, sha)"
| "decode_object _ = None"

fun decode_tags :: "body \<Rightarrow> (string \<times> string) list option" where
  "decode_tags (JsonTags tags) = Some tags"
| "decode_tags _ = None"

text \<open>
  What the program prints, and the requests it sends, in the order in which they happen.
  \<open>Prompt\<close> carries the file, the line (printed trimmed), the URL to check and the
  proposed usage. \<open>Updated\<close> is printed right after \<open>ioutil.WriteFile\<close> has written a
  workflow file (line 643). \<open>NilMapPanic\<close> is the message of the run-time system when the
  program assigns to an entry of a nil map.
\<close>

datatype event =
    HttpGet string
  | Processing string
  | Separator
  | PreviouslyAccepted string string
  | ResolveFailed string error
  | Prompt string string string string
  | AddedOrg string
  | Quitting
  | SaveFailed
  | InvalidOption
  | Updated string
  | FileError string
  | Note string string string string string
  | NilMapPanic

text \<open>
  The configuration of lines 356 to 359. \<open>AcceptedMapping\<close> is a Go map, which may be nil:
  \<open>None\<close> here. loadConfig makes a map when there is no configuration file (line 376); when
  there is one, \<open>json.Unmarshal\<close> (line 387) fills the fields that the file has, so a file
  without the member \<open>acceptedMapping\<close> (or with \<open>null\<close> for it) leaves the nil map of the
  zero value. \<open>accepted c key\<close> is the read \<open>config.AcceptedMapping[key]\<close> of line 570,
  which finds nothing in a nil map; an assignment to an entry of a nil map (line 597)
  panics.
\<close>

record Config =
  AllowedOrgs :: "string list"
  AcceptedMapping :: "(string \<rightharpoonup> string) option"

definition accepted :: "Config \<Rightarrow> string \<rightharpoonup> string" where
  "accepted c = (case AcceptedMapping c of None \<Rightarrow> Map.empty | Some m \<Rightarrow> m)"

text \<open>
  The surroundings of one run. \<open>sort_Slice less xs\<close> is what \<open>sort.Slice\<close> leaves in the
  slice; \<open>EqualFold\<close> is \<open>strings.EqualFold\<close> of the Go library, the equality of two
  strings under the simple case folding of Unicode, whose tables are not in the
  repository: it is any function here, and what is proved holds for each; \<open>today\<close> is
  \<open>time.Now().Format("2006-01-02")\<close>; \<open>answers n\<close> is the value of \<open>answer\<close> at the
  prompt number \<open>n\<close> of the run, lower-cased and trimmed (the empty string once the input
  has ended); \<open>writable\<close> tells for which workflow files \<open>ioutil.WriteFile\<close> succeeds,
  \<open>config_writable\<close> the same for the configuration file.
\<close>

record env =
  http_Get :: "string \<Rightarrow> reply"
  sort_Slice :: "(string \<Rightarrow> string \<Rightarrow> bool) \<Rightarrow> string list \<Rightarrow> string list"
  EqualFold :: "string \<Rightarrow> string \<Rightarrow> bool"
  today :: string
  answers :: "nat \<Rightarrow> string"
  writable :: "string \<Rightarrow> bool"
  config_writable :: bool
  verbose :: bool

text \<open>
  The state of a run: the global \<open>config\<close>, the number of answers read, the workflow
  files (\<open>None\<close>: \<open>ioutil.ReadFile\<close> fails), the configuration last written to the
  configuration file, and what has been printed and requested so far.
\<close>

record world =
  config :: Config
  asked :: nat
  disk :: "string \<rightharpoonup> string"
  persisted :: "Config option"
  out :: "event list"

definition emit :: "event list \<Rightarrow> world \<Rightarrow> world" where
  "emit es w = w\<lparr>out := out w @ es\<rparr>"

subsection \<open>saveConfig (lines 391 to 397)\<close>

definition saveConfig :: "env \<Rightarrow> world \<Rightarrow> bool \<times> world" where
  "saveConfig e w =
     (if config_writable e then (True, w\<lparr>persisted := Some (config w)\<rparr>) else (False, w))"

subsection \<open>findLatestVersionTag (lines 459 to 500)\<close>

definition version_less :: "string \<Rightarrow> string \<Rightarrow> bool" where
  "version_less a b = (compareVersions (TrimPrefix a ''v'') (TrimPrefix b ''v'') > 0)"

text \<open>
  The result and the requests sent. \<open>sort.Slice\<close> sorts in place, so \<open>filtered[0]\<close>
  exists after it; the case of an empty sorted list is there only because \<open>sort_Slice\<close>
  is any function here.
\<close>

definition findLatestVersionTag ::
  "env \<Rightarrow> string \<Rightarrow> string \<Rightarrow> string \<Rightarrow> (error + string) \<times> event list" where
  "findLatestVersionTag e owner repo prefix =
     (let url = ''https://api.github.com/repos/'' @ owner @ ''/'' @ repo @ ''/tags''
      in case http_Get e url of
           Failed \<Rightarrow> (Inl TransportError, [HttpGet url])
         | Response status b \<Rightarrow>
             if status \<noteq> 200 then (Inl (StatusError status), [HttpGet url])
             else (case decode_tags b of
                     None \<Rightarrow> (Inl DecodeError, [HttpGet url])
                   | Some tags \<Rightarrow>
                       (let filtered = filter (\<lambda>name. HasPrefix name prefix) (map fst tags)
                        in if length filtered = 0
                           then (Inl (NoTagsWithPrefix prefix), [HttpGet url])
                           else (case sort_Slice e version_less filtered of
                                   [] \<Rightarrow> (Inl (CouldNotResolve prefix), [HttpGet url])
                                 | latestTag # _ \<Rightarrow>
                                     (case map_of tags latestTag of
                                        Some sha \<Rightarrow> (Inr sha, [HttpGet url])
                                      | None \<Rightarrow> (Inl (CouldNotResolve prefix), [HttpGet url]))))))"

subsection \<open>getCommitSha, second revision (lines 504 to 526)\<close>

definition get_object :: "env \<Rightarrow> string \<Rightarrow> (error + string \<times> string) \<times> event list" where
  "get_object e url =
     (case http_Get e url of
        Failed \<Rightarrow> (Inl TransportError, [HttpGet url])
      | Response status b \<Rightarrow>
          if status \<noteq> 200 then (Inl (StatusError status), [HttpGet url])
          else (case decode_object b of
                  None \<Rightarrow> (Inl DecodeError, [HttpGet url])
                | Some obj \<Rightarrow> (Inr obj, [HttpGet url])))"

definition getCommitSha ::
  "env \<Rightarrow> string \<Rightarrow> string \<Rightarrow> string \<Rightarrow> (error + string) \<times> event list" where
  "getCommitSha e owner repo tag =
     (if tag \<noteq> ''master'' \<and> tag \<noteq> ''main'' then findLatestVersionTag e owner repo tag
      else
        (let orginUrl =
               (if tag = ''master''
                then ''https://api.github.com/repos/'' @ owner @ ''/'' @ repo @
                     ''/git/ref/heads/master''
                else ''https://api.github.com/repos/'' @ owner @ ''/'' @ repo @
                     ''/git/ref/heads/main'')
         in case get_object e orginUrl of
              (Inl err, reqs) \<Rightarrow> (Inl err, reqs)
            | (Inr (typ, sha), reqs) \<Rightarrow> (Inr sha, reqs)))"

subsection \<open>resolveTag and getCommitSha, first revision (lines 90 to 166)\<close>

definition tag_url :: "string \<Rightarrow> string \<Rightarrow> string \<Rightarrow> string" where
  "tag_url owner repo sha =
     ''https://api.github.com/repos/'' @ owner @ ''/'' @ repo @ ''/git/tags/'' @ sha"

definition resolveTag ::
  "env \<Rightarrow> string \<Rightarrow> string \<Rightarrow> string \<Rightarrow> (error + string) \<times> event list" where
  "resolveTag e owner repo sha =
     (case get_object e (tag_url owner repo sha) of
        (Inl err, reqs) \<Rightarrow> (Inl err, reqs)
      | (Inr (typ, target), reqs) \<Rightarrow> (Inr target, reqs))"

text \<open>
  The loop \<open>for ref.Object.Type == "tag"\<close> (lines 133 to 161). Its state is the type in
  \<open>ref\<close>, \<open>commitSha\<close> and \<open>weirdMapping\<close>; \<open>reqs\<close> collects the requests. Nothing bounds
  the number of rounds, so the loop is a partial function: \<open>None\<close> is a run that never
  leaves it.
\<close>

partial_function (option) getCommitSha_loop ::
  "env \<Rightarrow> string \<Rightarrow> string \<Rightarrow> string \<Rightarrow> string \<Rightarrow> bool \<Rightarrow> event list
     \<Rightarrow> ((error + string \<times> bool) \<times> event list) option" where
  "getCommitSha_loop e owner repo refType commitSha weirdMapping reqs =
     (if refType = ''tag'' then
        (case resolveTag e owner repo commitSha of
           (Inl err, r1) \<Rightarrow> Some (Inl err, reqs @ r1)
         | (Inr resolvedSha, r1) \<Rightarrow>
             (let url = tag_url owner repo resolvedSha
              in case http_Get e url of
                   Failed \<Rightarrow> Some (Inl TransportError, reqs @ r1 @ [HttpGet url])
                 | Response status b \<Rightarrow>
                     if status \<noteq> 200
                     then Some (Inr (resolvedSha, True), reqs @ r1 @ [HttpGet url])
                     else (case decode_object b of
                             None \<Rightarrow> Some (Inl DecodeError, reqs @ r1 @ [HttpGet url])
                           | Some (typ, target) \<Rightarrow>
                               if typ = ''tag''
                               then getCommitSha_loop e owner repo typ resolvedSha True
                                      (reqs @ r1 @ [HttpGet url])
                               else Some (Inr (resolvedSha, True),
                                          reqs @ r1 @ [HttpGet url]))))
      else Some (Inr (commitSha, weirdMapping), reqs))"

declare getCommitSha_loop.simps [code]

definition getCommitSha_nested ::
  "env \<Rightarrow> string \<Rightarrow> string \<Rightarrow> string \<Rightarrow> ((error + string) \<times> event list) option" where
  "getCommitSha_nested e owner repo tag =
     (let orginUrl =
            (if tag = ''master''
             then ''https://api.github.com/repos/'' @ owner @ ''/'' @ repo @
                  ''/git/ref/heads/master''
             else ''https://api.github.com/repos/'' @ owner @ ''/'' @ repo @
                  ''/git/ref/tags/'' @ tag)
      in case get_object e orginUrl of
           (Inl err, reqs) \<Rightarrow> Some (Inl err, reqs)
         | (Inr (typ, sha), reqs) \<Rightarrow>
             (case getCommitSha_loop e owner repo typ sha False reqs of
                None \<Rightarrow> None
              | Some (Inl err, reqs') \<Rightarrow> Some (Inl err, reqs')
              | Some (Inr (commitSha, weirdMapping), reqs') \<Rightarrow>
                  Some (Inr commitSha,
                        reqs' @ (if weirdMapping
                                 then [Note owner repo tag commitSha orginUrl] else []))))"

subsection \<open>isAllowedOrg (lines 529 to 536) and the regular expressions\<close>

definition isAllowedOrg :: "env \<Rightarrow> Config \<Rightarrow> string \<Rightarrow> bool" where
  "isAllowedOrg e c owner = list_ex (\<lambda>org. EqualFold e owner org) (AllowedOrgs c)"

text \<open>The expression \<open>^[0-9a-f]{40}$\<close> of line 562.\<close>

definition is_commit_hash :: "string \<Rightarrow> bool" where
  "is_commit_hash tag = (length tag = 40 \<and> list_all (\<lambda>c. c \<in> set ''0123456789abcdef'') tag)"

text \<open>
  \<open>usageRegex.FindStringSubmatch\<close> for the expression \<open>uses:\s*([^/]+)/([^@]+)@(\S+)\<close>
  of line 540, giving the three groups of the leftmost match. \<open>re_space\<close> is the class
  \<open>\s\<close>. \<open>match_usage\<close> is the rest of the expression right after one \<open>uses:\<close>: the
  first group cannot hold a slash and is followed by one, so it ends at the first slash;
  the greedy \<open>\s*\<close> before it takes all the white space it can and leaves at least one
  byte to the group; the second group ends at the first \<open>@\<close> after the slash; the third
  one is the longest run without white space after that. When the expression does not
  match after one \<open>uses:\<close>, the engine goes on to the next one.
\<close>

definition re_space :: "char \<Rightarrow> bool" where
  "re_space c = (c \<in> {CHR 0x09, CHR 0x0A, CHR 0x0C, CHR 0x0D, CHR 0x20})"

definition match_usage :: "string \<Rightarrow> (string \<times> string \<times> string) option" where
  "match_usage rest =
     (let pre = takeWhile (\<lambda>c. c \<noteq> CHR ''/'') rest;
          from_slash = dropWhile (\<lambda>c. c \<noteq> CHR ''/'') rest
      in if pre = [] \<or> from_slash = [] then None
         else
           (let repo = takeWhile (\<lambda>c. c \<noteq> CHR ''@'') (tl from_slash);
                from_at = dropWhile (\<lambda>c. c \<noteq> CHR ''@'') (tl from_slash)
            in if repo = [] \<or> from_at = [] then None
               else
                 (let tag = takeWhile (\<lambda>c. \<not> re_space c) (tl from_at);
                      stripped = dropWhile re_space pre;
                      owner = (if stripped = [] then [last pre] else stripped)
                  in if tag = [] then None else Some (owner, repo, tag))))"

fun usageRegex :: "string \<Rightarrow> (string \<times> string \<times> string) option" where
  "usageRegex [] = None"
| "usageRegex (c # cs) =
     (if HasPrefix (c # cs) ''uses:''
      then (case match_usage (drop 5 (c # cs)) of
              Some groups \<Rightarrow> Some groups
            | None \<Rightarrow> usageRegex cs)
      else usageRegex cs)"

subsection \<open>processFile (lines 543 to 646)\<close>

text \<open>
  What a round of the loop over the lines leads to: the next round, \<open>os.Exit\<close> with a
  status, or a run-time panic, which ends the process at once with the status 2.
\<close>

datatype outcome = Continue | Exit nat | Panic

text \<open>The comment and the line of lines 619 to 634.\<close>

definition versionTag :: "env \<Rightarrow> string \<Rightarrow> string" where
  "versionTag e tag = (if tag = ''master'' then ''#master-'' @ today e else ''#'' @ tag)"

definition leadingWhitespace :: "string \<Rightarrow> string" where
  "leadingWhitespace line = takeWhile (\<lambda>r. r = CHR '' '' \<or> r = CHR 0x09) line"

definition newUsage :: "env \<Rightarrow> string \<Rightarrow> string \<Rightarrow> string \<Rightarrow> string \<Rightarrow> string" where
  "newUsage e owner repo commitSha tag =
     ''uses: '' @ owner @ ''/'' @ repo @ ''@'' @ commitSha @ '' '' @ versionTag e tag"

definition checkUrl :: "string \<Rightarrow> string \<Rightarrow> string \<Rightarrow> string" where
  "checkUrl owner repo tag =
     (if tag = ''master''
      then ''https://github.com/'' @ owner @ ''/'' @ repo @ ''/commits/master/''
      else ''https://github.com/'' @ owner @ ''/'' @ repo @ ''/releases/tag/'' @ tag)"

text \<open>
  One round of the loop over the lines (lines 554 to 636): what happens next, the new
  state, the new content of \<open>lines[i]\<close>, and whether this round has set \<open>changed\<close>. On
  the answer y the source first assigns to the entry of the key (line 597), which panics
  when the map is nil, then stores \<open>newUsage\<close> in \<open>lines[i]\<close> (line 599) and, after the
  switch, the indented line (line 634), which is the one that stays.
\<close>

definition process_line ::
  "env \<Rightarrow> string \<Rightarrow> world \<Rightarrow> string \<Rightarrow> outcome \<times> world \<times> string \<times> bool" where
  "process_line e filePath w line =
     (case usageRegex line of
        None \<Rightarrow> (Continue, w, line, False)
      | Some (owner, repo, tag) \<Rightarrow>
          if isAllowedOrg e (config w) owner \<or> is_commit_hash tag
          then (Continue, w, line, False)
          else
            (let key = owner @ ''/'' @ repo @ ''@'' @ tag
             in case accepted (config w) key of
                  Some commitSha \<Rightarrow>
                    (Continue, emit [Separator, PreviouslyAccepted key commitSha] w,
                     leadingWhitespace line @ newUsage e owner repo commitSha tag, True)
                | None \<Rightarrow>
                    (case getCommitSha e owner repo tag of
                       (Inl err, reqs) \<Rightarrow>
                         (Continue, emit ([Separator] @ reqs @ [ResolveFailed key err]) w,
                          line, False)
                     | (Inr commitSha, reqs) \<Rightarrow>
                         (let w1 = (emit ([Separator] @ reqs @
                                      [Prompt filePath line (checkUrl owner repo tag)
                                         (newUsage e owner repo commitSha tag)]) w)
                                   \<lparr>asked := asked w + 1\<rparr>;
                              answer = answers e (asked w)
                          in if answer = ''y'' then
                               (case AcceptedMapping (config w1) of
                                  None \<Rightarrow> (Panic, emit [NilMapPanic] w1, line, False)
                                | Some m \<Rightarrow>
                                    (Continue,
                                     w1\<lparr>config := (config w1)
                                          \<lparr>AcceptedMapping := Some (m(key \<mapsto> commitSha))\<rparr>\<rparr>,
                                     leadingWhitespace line @ newUsage e owner repo commitSha tag,
                                     True))
                             else if answer = ''n'' then (Continue, w1, line, False)
                             else if answer = ''a'' then
                               (Continue,
                                emit [AddedOrg owner]
                                  (w1\<lparr>config := (config w1)
                                        \<lparr>AllowedOrgs := AllowedOrgs (config w1) @ [owner]\<rparr>\<rparr>),
                                line, False)
                             else if answer = ''q'' then
                               (case saveConfig e (emit [Quitting] w1) of
                                  (True, w2) \<Rightarrow> (Exit 0, w2, line, False)
                                | (False, w2) \<Rightarrow> (Exit 0, emit [SaveFailed] w2, line, False))
                             else (Continue, emit [InvalidOption] w1, line, False)))))"

text \<open>The loop over the lines: it stops where the process exits or panics.\<close>

fun process_lines ::
  "env \<Rightarrow> string \<Rightarrow> world \<Rightarrow> string list \<Rightarrow> outcome \<times> world \<times> string list \<times> bool" where
  "process_lines e filePath w [] = (Continue, w, [], False)"
| "process_lines e filePath w (line # rest) =
     (case process_line e filePath w line of
        (Exit code, w1, line1, changed1) \<Rightarrow> (Exit code, w1, line1 # rest, changed1)
      | (Panic, w1, line1, changed1) \<Rightarrow> (Panic, w1, line1 # rest, changed1)
      | (Continue, w1, line1, changed1) \<Rightarrow>
          (case process_lines e filePath w1 rest of
             (oc, w2, rest2, changed2) \<Rightarrow> (oc, w2, line1 # rest2, changed1 \<or> changed2)))"

text \<open>
  processFile. A file that cannot be read or written makes processFile return the error,
  which \<open>main\<close> prints (line 682): \<open>FileError\<close>.
\<close>

definition processFile :: "env \<Rightarrow> world \<Rightarrow> string \<Rightarrow> outcome \<times> world" where
  "processFile e w filePath =
     (let w0 = (if verbose e then emit [Processing filePath] w else w)
      in case disk w0 filePath of
           None \<Rightarrow> (Continue, emit [FileError filePath] w0)
         | Some inputBytes \<Rightarrow>
             (case process_lines e filePath w0 (Split (CHR 0x0A) inputBytes) of
                (Exit code, w1, lines, changed) \<Rightarrow> (Exit code, w1)
              | (Panic, w1, lines, changed) \<Rightarrow> (Panic, w1)
              | (Continue, w1, lines, changed) \<Rightarrow>
                  if changed then
                    (if writable e filePath
                     then (Continue,
                           emit [Updated filePath]
                             (w1\<lparr>disk := (disk w1)(filePath \<mapsto> Join (CHR 0x0A) lines)\<rparr>))
                     else (Continue, emit [FileError filePath] w1))
                  else (Continue, w1)))"

subsection \<open>main (lines 648 to 693)\<close>

text \<open>
  The walk over the workflow files, given as the list of the paths of the \<open>.yml\<close> and
  \<open>.yaml\<close> files in the order of \<open>filepath.Walk\<close>, and then the last saveConfig. The
  state at the start holds the configuration that loadConfig has read. The result is the
  exit status and the final state; a panic ends the process with the status 2, without
  the last saveConfig. The goroutine that saves the configuration when a signal arrives
  runs beside this walk and is not part of the model.
\<close>

fun walk :: "env \<Rightarrow> world \<Rightarrow> string list \<Rightarrow> outcome \<times> world" where
  "walk e w [] = (Continue, w)"
| "walk e w (path # paths) =
     (case processFile e w path of
        (Exit code, w1) \<Rightarrow> (Exit code, w1)
      | (Panic, w1) \<Rightarrow> (Panic, w1)
      | (Continue, w1) \<Rightarrow> walk e w1 paths)"

definition main :: "env \<Rightarrow> world \<Rightarrow> string list \<Rightarrow> nat \<times> world" where
  "main e w paths =
     (case walk e w paths of
        (Exit code, w1) \<Rightarrow> (code, w1)
      | (Panic, w1) \<Rightarrow> (2, w1)
      | (Continue, w1) \<Rightarrow>
          (case saveConfig e w1 of
             (True, w2) \<Rightarrow> (0, w2)
           | (False, w2) \<Rightarrow> (0, emit [SaveFailed] w2)))"

subsection \<open>processFile, first revision (lines 183 to 278)\<close>

text \<open>
  The first revision runs the same loop, with two differences: it calls its own
  getCommitSha, which may never return (\<open>None\<close> here), and the line it stores after the
  switch is the new usage text alone (line 266), without the indentation.
\<close>

definition process_line_first ::
  "env \<Rightarrow> string \<Rightarrow> world \<Rightarrow> string \<Rightarrow> (outcome \<times> world \<times> string \<times> bool) option" where
  "process_line_first e filePath w line =
     (case usageRegex line of
        None \<Rightarrow> Some (Continue, w, line, False)
      | Some (owner, repo, tag) \<Rightarrow>
          if isAllowedOrg e (config w) owner \<or> is_commit_hash tag
          then Some (Continue, w, line, False)
          else
            (let key = owner @ ''/'' @ repo @ ''@'' @ tag
             in case accepted (config w) key of
                  Some commitSha \<Rightarrow>
                    Some (Continue, emit [Separator, PreviouslyAccepted key commitSha] w,
                          newUsage e owner repo commitSha tag, True)
                | None \<Rightarrow>
                    (case getCommitSha_nested e owner repo tag of
                       None \<Rightarrow> None
                     | Some (Inl err, reqs) \<Rightarrow>
                         Some (Continue, emit ([Separator] @ reqs @ [ResolveFailed key err]) w,
                               line, False)
                     | Some (Inr commitSha, reqs) \<Rightarrow>
                         (let w1 = (emit ([Separator] @ reqs @
                                      [Prompt filePath line (checkUrl owner repo tag)
                                         (newUsage e owner repo commitSha tag)]) w)
                                   \<lparr>asked := asked w + 1\<rparr>;
                              answer = answers e (asked w)
                          in if answer = ''y'' then
                               (case AcceptedMapping (config w1) of
                                  None \<Rightarrow> Some (Panic, emit [NilMapPanic] w1, line, False)
                                | Some m \<Rightarrow>
                                    Some (Continue,
                                          w1\<lparr>config := (config w1)
                                               \<lparr>AcceptedMapping := Some (m(key \<mapsto> commitSha))\<rparr>\<rparr>,
                                          newUsage e owner repo commitSha tag, True))
                             else if answer = ''n'' then Some (Continue, w1, line, False)
                             else if answer = ''a'' then
                               Some (Continue,
                                     emit [AddedOrg owner]
                                       (w1\<lparr>config := (config w1)
                                             \<lparr>AllowedOrgs := AllowedOrgs (config w1) @ [owner]\<rparr>\<rparr>),
                                     line, False)
                             else if answer = ''q'' then
                               (case saveConfig e (emit [Quitting] w1) of
                                  (True, w2) \<Rightarrow> Some (Exit 0, w2, line, False)
                                | (False, w2) \<Rightarrow>
                                    Some (Exit 0, emit [SaveFailed] w2, line, False))
                             else Some (Continue, emit [InvalidOption] w1, line, False)))))"

fun process_lines_first ::
  "env \<Rightarrow> string \<Rightarrow> world \<Rightarrow> string list
     \<Rightarrow> (outcome \<times> world \<times> string list \<times> bool) option" where
  "process_lines_first e filePath w [] = Some (Continue, w, [], False)"
| "process_lines_first e filePath w (line # rest) =
     (case process_line_first e filePath w line of
        None \<Rightarrow> None
      | Some (Exit code, w1, line1, changed1) \<Rightarrow> Some (Exit code, w1, line1 # rest, changed1)
      | Some (Panic, w1, line1, changed1) \<Rightarrow> Some (Panic, w1, line1 # rest, changed1)
      | Some (Continue, w1, line1, changed1) \<Rightarrow>
          (case process_lines_first e filePath w1 rest of
             None \<Rightarrow> None
           | Some (oc, w2, rest2, changed2) \<Rightarrow>
               Some (oc, w2, line1 # rest2, changed1 \<or> changed2)))"

definition processFile_first :: "env \<Rightarrow> world \<Rightarrow> string \<Rightarrow> (outcome \<times> world) option" where
  "processFile_first e w filePath =
     (let w0 = (if verbose e then emit [Processing filePath] w else w)
      in case disk w0 filePath of
           None \<Rightarrow> Some (Continue, emit [FileError filePath] w0)
         | Some inputBytes \<Rightarrow>
             (case process_lines_first e filePath w0 (Split (CHR 0x0A) inputBytes) of
                None \<Rightarrow> None
              | Some (Exit code, w1, lines, changed) \<Rightarrow> Some (Exit code, w1)
              | Some (Panic, w1, lines, changed) \<Rightarrow> Some (Panic, w1)
              | Some (Continue, w1, lines, changed) \<Rightarrow>
                  if changed then
                    (if writable e filePath
                     then Some (Continue,
                                emit [Updated filePath]
                                  (w1\<lparr>disk := (disk w1)(filePath \<mapsto> Join (CHR 0x0A) lines)\<rparr>))
                     else Some (Continue, emit [FileError filePath] w1))
                  else Some (Continue, w1)))"

subsection \<open>Notions used to state the properties of compareVersions\<close>

text \<open>
  \<open>num_at parts i\<close> is the value of \<open>num1\<close> (or \<open>num2\<close>) in round \<open>i\<close> of the loop of
  compareVersions, \<open>component v i\<close> the same for the parts of the version string \<open>v\<close>, and
  \<open>lex_gt f g\<close> says that at the first position where two sequences of numbers differ
  the first one is the greater.
\<close>

definition num_at :: "string list \<Rightarrow> nat \<Rightarrow> int" where
  "num_at parts i = (if i < length parts then Sscanf_d (parts ! i) else 0)"

definition component :: "string \<Rightarrow> nat \<Rightarrow> int" where
  "component v i = num_at (Split (CHR ''.'') v) i"

definition lex_gt :: "(nat \<Rightarrow> int) \<Rightarrow> (nat \<Rightarrow> int) \<Rightarrow> bool" where
  "lex_gt f g = (\<exists>k. f k > g k \<and> (\<forall>j<k. f j = g j))"

definition is_letter :: "char \<Rightarrow> bool" where
  "is_letter c = (c \<in> set ''abcdefghijklmnopqrstuvwxyzABCDEFGHIJKLMNOPQRSTUVWXYZ'')"

text \<open>
  The comparison as the specification words it, to be compared with the code: a part is
  a number when it is a non-empty run of decimal digits and counts with its decimal
  value, every other part counts as 0, a missing part counts as 0, and the numbers are
  compared from the left.
\<close>

definition spec_number :: "string \<Rightarrow> int" where
  "spec_number c = (if c \<noteq> [] \<and> list_all is_digit c then int (decimal c) else 0)"

fun spec_compare_numbers :: "int list \<Rightarrow> int list \<Rightarrow> int" where
  "spec_compare_numbers [] [] = 0"
| "spec_compare_numbers (a # as) [] =
     (if a > 0 then 1 else if a < 0 then - 1 else spec_compare_numbers as [])"
| "spec_compare_numbers [] (b # bs) =
     (if 0 > b then 1 else if 0 < b then - 1 else spec_compare_numbers [] bs)"
| "spec_compare_numbers (a # as) (b # bs) =
     (if a > b then 1 else if a < b then - 1 else spec_compare_numbers as bs)"

definition spec_compareVersions :: "string \<Rightarrow> string \<Rightarrow> int" where
  "spec_compareVersions v1 v2 =
     spec_compare_numbers (map spec_number (Split (CHR ''.'') v1))
                          (map spec_number (Split (CHR ''.'') v2))"


text \<open>
  Notions used to state the properties of processFile: the state right after the prompt
  for a line has been printed and its answer read, the key of a reference, and the lines
  that rewriting a given line can produce, in the second revision and in the first.
\<close>

definition after_prompt ::
  "env \<Rightarrow> string \<Rightarrow> world \<Rightarrow> string \<Rightarrow> string \<Rightarrow> string \<Rightarrow> string \<Rightarrow> string
     \<Rightarrow> event list \<Rightarrow> world" where
  "after_prompt e filePath w line owner repo tag commitSha reqs =
     (emit ([Separator] @ reqs @
        [Prompt filePath line (checkUrl owner repo tag) (newUsage e owner repo commitSha tag)]) w)
     \<lparr>asked := asked w + 1\<rparr>"

definition key_of :: "string \<Rightarrow> string \<Rightarrow> string \<Rightarrow> string" where
  "key_of owner repo tag = owner @ ''/'' @ repo @ ''@'' @ tag"

definition rewritten_from :: "env \<Rightarrow> string \<Rightarrow> string \<Rightarrow> bool" where
  "rewritten_from e line line' =
     (\<exists>owner repo tag commitSha.
        usageRegex line = Some (owner, repo, tag) \<and>
        line' = leadingWhitespace line @ newUsage e owner repo commitSha tag)"

definition rewritten_first_from :: "env \<Rightarrow> string \<Rightarrow> string \<Rightarrow> bool" where
  "rewritten_first_from e line line' =
     (\<exists>owner repo tag commitSha.
        usageRegex line = Some (owner, repo, tag) \<and>
        line' = newUsage e owner repo commitSha tag)"

text \<open>
  The workflow files written so far, in the order of the writes: the paths of the
  \<open>Updated\<close> messages. \<open>written_back rw w filePath w'\<close> says what a call of processFile
  for \<open>filePath\<close> may have done between the states \<open>w\<close> and \<open>w'\<close>, the lines it rewrites
  being related by \<open>rw\<close>: no other file has changed, and either no file has been written
  and no content has changed, or this file has been written once, with the lines it had,
  each one as it was or rewritten and at least one of them rewritten, joined by newlines.
\<close>

fun written :: "event list \<Rightarrow> string list" where
  "written [] = []"
| "written (Updated p # es) = p # written es"
| "written (ev # es) = written es"

definition written_back ::
  "(string \<Rightarrow> string \<Rightarrow> bool) \<Rightarrow> world \<Rightarrow> string \<Rightarrow> world \<Rightarrow> bool" where
  "written_back rw w filePath w' =
     ((\<forall>p. p \<noteq> filePath \<longrightarrow> disk w' p = disk w p) \<and>
      ((disk w' = disk w \<and> written (out w') = written (out w)) \<or>
       (\<exists>inputBytes lines'.
          disk w filePath = Some inputBytes \<and>
          disk w' filePath = Some (Join (CHR 0x0A) lines') \<and>
          written (out w') = written (out w) @ [filePath] \<and>
          length lines' = length (Split (CHR 0x0A) inputBytes) \<and>
          (\<forall>i<length lines'.
             lines' ! i = Split (CHR 0x0A) inputBytes ! i \<or>
             rw (Split (CHR 0x0A) inputBytes ! i) (lines' ! i)) \<and>
          (\<exists>i<length lines'. rw (Split (CHR 0x0A) inputBytes ! i) (lines' ! i)))))"

text \<open>
  The name of a tag without a leading v, in the words of the specification, to be
  compared with the \<open>strings.TrimPrefix\<close> of lines 489 and 490.
\<close>

fun spec_strip_v :: "string \<Rightarrow> string" where
  "spec_strip_v [] = []"
| "spec_strip_v (c # cs) = (if c = CHR ''v'' then cs else c # cs)"

text \<open>
  Concrete surroundings for the examples: a sorting function (insertion from the right,
  the greatest first), the comparison that folds the letters A to Z and no others (what
  \<open>strings.EqualFold\<close> does on strings of ASCII), a remote service that knows the
  repositories acme/build and acme/deploy, a user who answers y to everything and a state
  whose allow list holds the organisation actions.
\<close>

definition lower :: "char \<Rightarrow> char" where
  "lower c =
     (case map_of (zip ''ABCDEFGHIJKLMNOPQRSTUVWXYZ'' ''abcdefghijklmnopqrstuvwxyz'') c of
        Some l \<Rightarrow> l
      | None \<Rightarrow> c)"

definition EqualFold_ASCII :: "string \<Rightarrow> string \<Rightarrow> bool" where
  "EqualFold_ASCII s t = (map lower s = map lower t)"

definition insert_sorted :: "(string \<Rightarrow> string \<Rightarrow> bool) \<Rightarrow> string \<Rightarrow> string list \<Rightarrow> string list" where
  "insert_sorted lt x ys = takeWhile (\<lambda>y. \<not> lt x y) ys @ x # dropWhile (\<lambda>y. \<not> lt x y) ys"

definition insertion_sort :: "(string \<Rightarrow> string \<Rightarrow> bool) \<Rightarrow> string list \<Rightarrow> string list" where
  "insertion_sort lt xs = foldr (insert_sorted lt) xs []"

definition sha_a :: string where "sha_a = ''aaaaaaaaaaaaaaaaaaaaaaaaaaaaaaaaaaaaaaaa''"

definition sha_b :: string where "sha_b = ''bbbbbbbbbbbbbbbbbbbbbbbbbbbbbbbbbbbbbbbb''"

definition sha_c :: string where "sha_c = ''cccccccccccccccccccccccccccccccccccccccc''"

definition sha_d :: string where "sha_d = ''dddddddddddddddddddddddddddddddddddddddd''"

definition example_remote :: "string \<Rightarrow> reply" where
  "example_remote url =
     (if url = ''https://api.github.com/repos/acme/build/tags''
      then Response 200 (JsonTags [(''v2.0.0'', sha_a), (''v2.1.0'', sha_b), (''v2.0.9'', sha_c)])
      else if url = ''https://api.github.com/repos/acme/deploy/tags''
      then Response 200 (JsonTags [(''v3'', sha_a), (''v2.5'', sha_c)])
      else if url = ''https://api.github.com/repos/acme/build/git/ref/heads/master''
      then Response 200 (JsonObject ''commit'' sha_d)
      else if url = ''https://api.github.com/repos/acme/build/git/ref/heads/main''
      then Response 200 (JsonObject ''commit'' sha_d)
      else Response 404 Malformed)"

definition example_env :: env where
  "example_env =
     \<lparr>http_Get = example_remote, sort_Slice = insertion_sort, EqualFold = EqualFold_ASCII,
      today = ''2025-01-01'',
      answers = (\<lambda>n. ''y''), writable = (\<lambda>p. True), config_writable = True,
      verbose = False\<rparr>"

definition example_world :: world where
  "example_world =
     \<lparr>config = \<lparr>AllowedOrgs = [''actions''], AcceptedMapping = Some Map.empty\<rparr>,
      asked = 0, disk = Map.empty,
      persisted = Some \<lparr>AllowedOrgs = [''actions''], AcceptedMapping = Some Map.empty\<rparr>,
      out = []\<rparr>"

text \<open>
  \<open>config_le c c'\<close>: the configuration \<open>c'\<close> holds every accepted key of \<open>c\<close> with the same
  commit, and its allow list is the one of \<open>c\<close> with further owners at its end.
\<close>

definition config_le :: "Config \<Rightarrow> Config \<Rightarrow> bool" where
  "config_le c c' =
     (accepted c \<subseteq>\<^sub>m accepted c' \<and>
      (\<exists>more. AllowedOrgs c' = AllowedOrgs c @ more))"

text \<open>
  A workflow file with a carriage return at the end of its first two lines, and what a
  run on the first of January 2025 with the answer y at every prompt makes of it.
\<close>

definition example_file :: string where
  "example_file =
     ''steps:'' @ [CHR 0x0D, CHR 0x0A] @
     ''  - uses: actions/checkout@v4'' @ [CHR 0x0D, CHR 0x0A] @
     ''    uses: acme/build@v2'' @ [CHR 0x0A] @
     [CHR 0x09] @ ''uses: acme/build@master'' @ [CHR 0x0A]"

definition example_file_pinned :: string where
  "example_file_pinned =
     ''steps:'' @ [CHR 0x0D, CHR 0x0A] @
     ''  - uses: actions/checkout@v4'' @ [CHR 0x0D, CHR 0x0A] @
     ''    uses: acme/build@'' @ sha_b @ '' #v2'' @ [CHR 0x0A] @
     [CHR 0x09] @ ''uses: acme/build@'' @ sha_d @ '' #master-2025-01-01'' @ [CHR 0x0A]"

text \<open>The example state with this file on disk, and a user who answers y and then q.\<close>

definition example_disk_world :: world where
  "example_disk_world = example_world\<lparr>disk := [''ci.yml'' \<mapsto> example_file]\<rparr>"

definition example_quit_env :: env where
  "example_quit_env = example_env\<lparr>answers := (\<lambda>n. if n = 0 then ''y'' else ''q'')\<rparr>"

text \<open>
  What \<open>sort.Slice\<close> promises for the order \<open>lt\<close>: the slice holds the same elements as
  before, and no element is less than one that stands before it. Nothing is said about
  the order of elements that compare equal.
\<close>

definition sorts_by ::
  "((string \<Rightarrow> string \<Rightarrow> bool) \<Rightarrow> string list \<Rightarrow> string list) \<Rightarrow> (string \<Rightarrow> string \<Rightarrow> bool) \<Rightarrow> bool" where
  "sorts_by srt lt =
     (\<forall>xs. mset (srt lt xs) = mset xs \<and> sorted_wrt (\<lambda>a b. \<not> lt b a) (srt lt xs))"

text \<open>
  A remote service where the head of master of acme/build is an annotated tag that
  points to a second annotated tag, which points to a commit: the reference gives the
  tag object \<open>sha_a\<close>, the tag object \<open>sha_a\<close> has the target \<open>sha_b\<close> of type tag, the tag
  object \<open>sha_b\<close> has the target \<open>sha_c\<close> of type commit, and \<open>sha_c\<close> is no tag object.
\<close>

definition chain_remote :: "string \<Rightarrow> reply" where
  "chain_remote url =
     (if url = ''https://api.github.com/repos/acme/build/git/ref/heads/master''
      then Response 200 (JsonObject ''tag'' sha_a)
      else if url = ''https://api.github.com/repos/acme/build/git/tags/'' @ sha_a
      then Response 200 (JsonObject ''tag'' sha_b)
      else if url = ''https://api.github.com/repos/acme/build/git/tags/'' @ sha_b
      then Response 200 (JsonObject ''commit'' sha_c)
      else Response 404 Malformed)"

definition chain_env :: env where
  "chain_env = example_env\<lparr>http_Get := chain_remote\<rparr>"

text \<open>
  Notions for two runs in a row. A line is settled under a configuration when a round of
  the loop will leave it alone without asking: it holds no reference, or the owner is
  allowed, or the ref is a commit, or the key is not accepted and the resolver fails.
  \<open>config_ext e c c'\<close>: \<open>c'\<close> is \<open>c\<close> with further accepted keys, each the key of a
  reference that the resolver resolves. \<open>quiet w w'\<close>: between the states \<open>w\<close> and \<open>w'\<close>
  nothing was asked and nothing but the output changed.
\<close>

fun is_prompt :: "event \<Rightarrow> bool" where
  "is_prompt (Prompt filePath line url usage) = True"
| "is_prompt _ = False"

definition settled :: "env \<Rightarrow> Config \<Rightarrow> string \<Rightarrow> bool" where
  "settled e c line =
     (case usageRegex line of
        None \<Rightarrow> True
      | Some (owner, repo, tag) \<Rightarrow>
          isAllowedOrg e c owner \<or> is_commit_hash tag \<or>
          (accepted c (key_of owner repo tag) = None \<and>
           (\<exists>err reqs. getCommitSha e owner repo tag = (Inl err, reqs))))"

definition file_settled :: "env \<Rightarrow> Config \<Rightarrow> string option \<Rightarrow> bool" where
  "file_settled e c content =
     (case content of
        None \<Rightarrow> True
      | Some inputBytes \<Rightarrow> (\<forall>line\<in>set (Split (CHR 0x0A) inputBytes). settled e c line))"

definition config_ext :: "env \<Rightarrow> Config \<Rightarrow> Config \<Rightarrow> bool" where
  "config_ext e c c' =
     (AllowedOrgs c' = AllowedOrgs c \<and>
      accepted c \<subseteq>\<^sub>m accepted c' \<and>
      (\<forall>k\<in>dom (accepted c') - dom (accepted c).
          \<exists>line owner repo tag sha reqs.
            usageRegex line = Some (owner, repo, tag) \<and> k = key_of owner repo tag \<and>
            getCommitSha e owner repo tag = (Inr sha, reqs)))"

definition quiet :: "world \<Rightarrow> world \<Rightarrow> bool" where
  "quiet w w' =
     (config w' = config w \<and> asked w' = asked w \<and> disk w' = disk w \<and>
      persisted w' = persisted w \<and>
      filter is_prompt (out w') = filter is_prompt (out w))"

text \<open>
  The example file as a run on the thirtieth of June 2025 would leave it if that run
  wrote the date of its day into the comment of the master line.
\<close>

definition example_file_redated :: string where
  "example_file_redated =
     ''steps:'' @ [CHR 0x0D, CHR 0x0A] @
     ''  - uses: actions/checkout@v4'' @ [CHR 0x0D, CHR 0x0A] @
     ''    uses: acme/build@'' @ sha_b @ '' #v2'' @ [CHR 0x0A] @
     [CHR 0x09] @ ''uses: acme/build@'' @ sha_d @ '' #master-2025-06-30'' @ [CHR 0x0A]"

definition example_later_env :: env where
  "example_later_env = example_env\<lparr>today := ''2025-06-30''\<rparr>"

definition example_after_first_run :: world where
  "example_after_first_run =
     example_world
        \<lparr>config := \<lparr>AllowedOrgs = [''actions''],
                     AcceptedMapping = Some [''acme/build@v2'' \<mapsto> sha_b,
                                        ''acme/build@master'' \<mapsto> sha_d]\<rparr>,
         asked := 2,
         disk := [''ci.yml'' \<mapsto> example_file_pinned],
         persisted := Some \<lparr>AllowedOrgs = [''actions''],
                     AcceptedMapping = Some [''acme/build@v2'' \<mapsto> sha_b,
                                        ''acme/build@master'' \<mapsto> sha_d]\<rparr>,
         out := [Separator, HttpGet ''https://api.github.com/repos/acme/build/tags'',
                 Prompt ''ci.yml'' ''    uses: acme/build@v2''
                   ''https://github.com/acme/build/releases/tag/v2''
                   (''uses: acme/build@'' @ sha_b @ '' #v2''),
                 Separator,
                 HttpGet ''https://api.github.com/repos/acme/build/git/ref/heads/master'',
                 Prompt ''ci.yml'' ([CHR 0x09] @ ''uses: acme/build@master'')
                   ''https://github.com/acme/build/commits/master/''
                   (''uses: acme/build@'' @ sha_d @ '' #master-2025-01-01''),
                 Updated ''ci.yml'']\<rparr>"

text \<open>
  A workflow file whose lines all end in a carriage return and a newline, one of them
  holding a reference that will be rewritten, and the example state with this file on
  disk.
\<close>

definition example_crlf_file :: string where
  "example_crlf_file =
     ''steps:'' @ [CHR 0x0D, CHR 0x0A] @
     ''    uses: acme/build@v2'' @ [CHR 0x0D, CHR 0x0A]"

definition example_crlf_world :: world where
  "example_crlf_world = example_world\<lparr>disk := [''ci.yml'' \<mapsto> example_crlf_file]\<rparr>"

text \<open>
  What rewriting makes of a line, said without the functions of the source:
  \<open>rewritten_line indented e line line'\<close> holds when \<open>line\<close> holds a reference and \<open>line'\<close>
  is the text \<open>uses: owner/repo@commit\<close>, a space and the comment, a number sign
  followed by the ref (by \<open>master-\<close> and the date for the ref master), after the longest
  run of spaces and tabs that \<open>line\<close> starts with if \<open>indented\<close>, and after nothing
  otherwise.
\<close>

definition rewritten_line :: "bool \<Rightarrow> env \<Rightarrow> string \<Rightarrow> string \<Rightarrow> bool" where
  "rewritten_line indented e line line' =
     (\<exists>owner repo tag commitSha ws rest.
        usageRegex line = Some (owner, repo, tag) \<and>
        line = ws @ rest \<and> set ws \<subseteq> {CHR '' '', CHR 0x09} \<and>
        (rest = [] \<or> hd rest \<notin> {CHR '' '', CHR 0x09}) \<and>
        line' = (if indented then ws else []) @
                ''uses: '' @ owner @ ''/'' @ repo @ ''@'' @ commitSha @ '' '' @
                (if tag = ''master'' then ''#master-'' @ today e else ''#'' @ tag))"

section \<open>Properties\<close>

subsection \<open>compareVersions\<close>

lemma loop_unfold:
  "compareVersions_loop p1 p2 m i =
     (if i < m then
        (if num_at p1 i > num_at p2 i then 1
         else if num_at p1 i < num_at p2 i then - 1
         else compareVersions_loop p1 p2 m (i + 1))
      else 0)"
  by (subst compareVersions_loop.simps) (simp add: Let_def num_at_def)

lemma loop_gt:
  "compareVersions_loop p1 p2 m i = 1 \<longleftrightarrow>
     (\<exists>k. i \<le> k \<and> k < m \<and> num_at p1 k > num_at p2 k \<and>
        (\<forall>j. i \<le> j \<and> j < k \<longrightarrow> num_at p1 j = num_at p2 j))"
proof (induction p1 p2 m i rule: compareVersions_loop.induct)
  case (1 p1 p2 m i)
  define c1 where "c1 = num_at p1"
  define c2 where "c2 = num_at p2"
  have unf: "compareVersions_loop p1 p2 m i =
     (if i < m then
        (if c1 i > c2 i then 1 else if c1 i < c2 i then - 1
         else compareVersions_loop p1 p2 m (i + 1))
      else 0)"
    unfolding c1_def c2_def by (rule loop_unfold)
  have ih: "i < m \<Longrightarrow> c1 i = c2 i \<Longrightarrow>
      compareVersions_loop p1 p2 m (i + 1) = 1 \<longleftrightarrow>
        (\<exists>k. i + 1 \<le> k \<and> k < m \<and> c1 k > c2 k \<and> (\<forall>j. i + 1 \<le> j \<and> j < k \<longrightarrow> c1 j = c2 j))"
    using "1.IH"[OF _ refl refl] unfolding c1_def c2_def num_at_def by simp
  have goal: "compareVersions_loop p1 p2 m i = 1 \<longleftrightarrow>
     (\<exists>k. i \<le> k \<and> k < m \<and> c1 k > c2 k \<and> (\<forall>j. i \<le> j \<and> j < k \<longrightarrow> c1 j = c2 j))"
  proof (cases "i < m")
    case False
    then show ?thesis using unf by auto
  next
    case True
    consider (gt) "c1 i > c2 i" | (lt) "c1 i < c2 i" | (eq) "c1 i = c2 i"
      by linarith
    then show ?thesis
    proof cases
      case gt
      have "\<exists>k. i \<le> k \<and> k < m \<and> c1 k > c2 k \<and> (\<forall>j. i \<le> j \<and> j < k \<longrightarrow> c1 j = c2 j)"
        using True gt by (intro exI[of _ i]) auto
      then show ?thesis using unf True gt by simp
    next
      case lt
      have "\<not> (\<exists>k. i \<le> k \<and> k < m \<and> c1 k > c2 k \<and> (\<forall>j. i \<le> j \<and> j < k \<longrightarrow> c1 j = c2 j))"
      proof
        assume "\<exists>k. i \<le> k \<and> k < m \<and> c1 k > c2 k \<and> (\<forall>j. i \<le> j \<and> j < k \<longrightarrow> c1 j = c2 j)"
        then obtain k where k: "i \<le> k" "c1 k > c2 k" "\<forall>j. i \<le> j \<and> j < k \<longrightarrow> c1 j = c2 j"
          by blast
        show False
        proof (cases "k = i")
          case True
          with k(2) lt show False by simp
        next
          case False
          with k(1) have "i < k" by simp
          with k(3) have "c1 i = c2 i" by blast
          with lt show False by simp
        qed
      qed
      then show ?thesis using unf True lt by simp
    next
      case eq
      have rec: "compareVersions_loop p1 p2 m i = compareVersions_loop p1 p2 m (i + 1)"
        using True eq unf by simp
      have "(\<exists>k. i + 1 \<le> k \<and> k < m \<and> c1 k > c2 k \<and> (\<forall>j. i + 1 \<le> j \<and> j < k \<longrightarrow> c1 j = c2 j))
         \<longleftrightarrow> (\<exists>k. i \<le> k \<and> k < m \<and> c1 k > c2 k \<and> (\<forall>j. i \<le> j \<and> j < k \<longrightarrow> c1 j = c2 j))"
        (is "?A \<longleftrightarrow> ?B")
      proof
        assume ?A
        then obtain k where k: "i + 1 \<le> k" "k < m" "c1 k > c2 k" "\<forall>j. i + 1 \<le> j \<and> j < k \<longrightarrow> c1 j = c2 j"
          by blast
        have "\<forall>j. i \<le> j \<and> j < k \<longrightarrow> c1 j = c2 j"
        proof (intro allI impI)
          fix j assume j: "i \<le> j \<and> j < k"
          show "c1 j = c2 j"
          proof (cases "j = i")
            case True then show ?thesis using eq by simp
          next
            case False
            then have "i + 1 \<le> j" using j by simp
            then show ?thesis using k(4) j by blast
          qed
        qed
        with k show ?B by (intro exI[of _ k]) simp
      next
        assume ?B
        then obtain k where k: "i \<le> k" "k < m" "c1 k > c2 k" "\<forall>j. i \<le> j \<and> j < k \<longrightarrow> c1 j = c2 j"
          by blast
        have "k \<noteq> i" using k(3) eq by auto
        then have "i + 1 \<le> k" using k(1) by simp
        moreover have "\<forall>j. i + 1 \<le> j \<and> j < k \<longrightarrow> c1 j = c2 j" using k(4) by simp
        ultimately show ?A using k by (intro exI[of _ k]) simp
      qed
      with rec ih[OF True eq] show ?thesis by simp
    qed
  qed
  then show ?case unfolding c1_def c2_def .
qed

lemma loop_swap: "compareVersions_loop p2 p1 m i = - compareVersions_loop p1 p2 m i"
proof (induction p1 p2 m i rule: compareVersions_loop.induct)
  case (1 p1 p2 m i)
  show ?case
  proof (cases "i < m \<and> num_at p1 i = num_at p2 i")
    case True
    then show ?thesis
      using "1.IH"[OF _ refl refl] 
      by (subst (1 2) loop_unfold) (simp add: num_at_def)
  next
    case False
    then show ?thesis by (subst (1 2) loop_unfold) auto
  qed
qed

lemma loop_range: "compareVersions_loop p1 p2 m i \<in> {1, - 1, 0}"
proof (induction p1 p2 m i rule: compareVersions_loop.induct)
  case (1 p1 p2 m i)
  show ?case
  proof (cases "i < m \<and> num_at p1 i = num_at p2 i")
    case True
    then show ?thesis
      using "1.IH"[OF _ refl refl] 
      by (subst loop_unfold) (simp add: num_at_def)
  next
    case False
    then show ?thesis by (subst loop_unfold) auto
  qed
qed

lemma num_at_beyond: "length p \<le> k \<Longrightarrow> num_at p k = 0"
  by (simp add: num_at_def)

lemma compareVersions_gt: "compareVersions v1 v2 = 1 \<longleftrightarrow> lex_gt (component v1) (component v2)"
proof -
  define p1 where "p1 = Split (CHR ''.'') v1"
  define p2 where "p2 = Split (CHR ''.'') v2"
  define m where "m = (if length p2 > length p1 then length p2 else length p1)"
  have cv: "compareVersions v1 v2 = compareVersions_loop p1 p2 m 0"
    by (simp add: compareVersions_def p1_def p2_def m_def Let_def)
  have beyond: "\<And>k. m \<le> k \<Longrightarrow> num_at p1 k = 0 \<and> num_at p2 k = 0"
    by (simp add: m_def num_at_beyond split: if_splits)
  have "(\<exists>k. 0 \<le> k \<and> k < m \<and> num_at p1 k > num_at p2 k \<and>
           (\<forall>j. 0 \<le> j \<and> j < k \<longrightarrow> num_at p1 j = num_at p2 j))
        \<longleftrightarrow> (\<exists>k. num_at p1 k > num_at p2 k \<and> (\<forall>j<k. num_at p1 j = num_at p2 j))"
    (is "?A \<longleftrightarrow> ?B")
  proof
    assume ?A then show ?B by auto
  next
    assume ?B
    then obtain k where k: "num_at p1 k > num_at p2 k" "\<forall>j<k. num_at p1 j = num_at p2 j"
      by blast
    have "k < m"
    proof (rule ccontr)
      assume "\<not> k < m"
      then have "num_at p1 k = 0 \<and> num_at p2 k = 0" using beyond by simp
      with k(1) show False by simp
    qed
    with k show ?A by auto
  qed
  then show ?thesis
    unfolding cv loop_gt lex_gt_def component_def p1_def p2_def by simp
qed

lemma compareVersions_swap: "compareVersions v2 v1 = - compareVersions v1 v2"
  by (simp add: compareVersions_def Let_def loop_swap[of "Split (CHR ''.'') v2"])

lemma compareVersions_range: "compareVersions v1 v2 \<in> {1, - 1, 0}"
  by (simp only: compareVersions_def Let_def loop_range)

lemma compareVersions_lt: "compareVersions v1 v2 = - 1 \<longleftrightarrow> lex_gt (component v2) (component v1)"
  using compareVersions_gt[of v2 v1] compareVersions_swap[of v2 v1] by auto

lemma lex_gt_asym: "lex_gt f g \<Longrightarrow> \<not> lex_gt g f"
proof
  assume "lex_gt f g" and "lex_gt g f"
  then obtain i k where i: "f i > g i" "\<forall>j<i. f j = g j" and k: "g k > f k" "\<forall>j<k. g j = f j"
    unfolding lex_gt_def by blast
  consider "i < k" | "i = k" | "k < i" by linarith
  then show False
  proof cases
    case 1 with k(2) i(1) show False by auto
  next
    case 2 with i(1) k(1) show False by auto
  next
    case 3 with i(2) k(1) show False by auto
  qed
qed

lemma lex_total: "\<not> lex_gt f g \<Longrightarrow> \<not> lex_gt g f \<Longrightarrow> f k = g k"
proof (rule ccontr)
  assume n1: "\<not> lex_gt f g" and n2: "\<not> lex_gt g f" and "f k \<noteq> g k"
  then have "\<exists>k. f k \<noteq> g k" by blast
  then obtain m where m: "f m \<noteq> g m" "\<forall>j<m. \<not> f j \<noteq> g j"
    using exists_least_iff[of "\<lambda>k. f k \<noteq> g k"] by blast
  then have "f m > g m \<or> g m > f m" by linarith
  then show False
  proof
    assume "f m > g m"
    with m(2) have "lex_gt f g" unfolding lex_gt_def by auto
    with n1 show False by simp
  next
    assume "g m > f m"
    with m(2) have "lex_gt g f" unfolding lex_gt_def by auto
    with n2 show False by simp
  qed
qed

lemma lex_gt_eq_left: "(\<And>k. f k = g k) \<Longrightarrow> lex_gt f h = lex_gt g h"
  by (simp add: lex_gt_def)

lemma lex_gt_trans: "lex_gt f g \<Longrightarrow> lex_gt g h \<Longrightarrow> lex_gt f h"
proof -
  assume "lex_gt f g" and "lex_gt g h"
  then obtain i k where i: "f i > g i" "\<forall>j<i. f j = g j" and k: "g k > h k" "\<forall>j<k. g j = h j"
    unfolding lex_gt_def by blast
  define n where "n = min i k"
  have "f n > h n"
  proof -
    consider "i < k" | "i = k" | "k < i" by linarith
    then show ?thesis
    proof cases
      case 1 then show ?thesis using i(1) k(2) by (simp add: n_def)
    next
      case 2 then show ?thesis using i(1) k(1) by (simp add: n_def)
    next
      case 3 then show ?thesis using i(2) k(1) by (simp add: n_def min_def)
    qed
  qed
  moreover have "\<forall>j<n. f j = h j" using i(2) k(2) by (simp add: n_def)
  ultimately show ?thesis unfolding lex_gt_def by blast
qed

lemma lex_gt_cotrans: "lex_gt f h \<Longrightarrow> lex_gt f g \<or> lex_gt g h"
proof (rule ccontr)
  assume fh: "lex_gt f h" and "\<not> (lex_gt f g \<or> lex_gt g h)"
  then have n1: "\<not> lex_gt f g" and n2: "\<not> lex_gt g h" by auto
  show False
  proof (cases "lex_gt g f")
    case True
    from this fh have "lex_gt g h" by (rule lex_gt_trans)
    with n2 show False by simp
  next
    case False
    with n1 have "\<And>k. f k = g k" by (rule lex_total)
    then have "lex_gt f h = lex_gt g h" by (rule lex_gt_eq_left)
    with fh n2 show False by simp
  qed
qed

lemma plain_char:
  assumes "is_digit a \<or> is_letter a"
  shows "a \<noteq> CHR 0x0A" "\<not> space1 a" "\<not> space2 a b" "\<not> space3 a b c"
    "a \<noteq> CHR ''+''" "a \<noteq> CHR ''-''"
  using assms unfolding is_digit_def is_letter_def space1_def space2_def space3_def
  by auto

lemma SkipSpace_plain:
  "s \<noteq> [] \<Longrightarrow> is_digit (hd s) \<or> is_letter (hd s) \<Longrightarrow> SkipSpace s = Some s"
  by (cases s rule: SkipSpace.cases) (simp_all add: plain_char)

lemma Sscanf_d_digits:
  assumes "c \<noteq> []" "\<forall>x\<in>set c. is_digit x" "decimal c < 2 ^ 63"
  shows "Sscanf_d c = int (decimal c)"
proof -
  have d: "is_digit (hd c)" using assms(1,2) by (cases c) auto
  have sk: "SkipSpace c = Some c" using assms(1) d by (simp add: SkipSpace_plain)
  have sg: "hd c \<noteq> CHR ''+'' \<and> hd c \<noteq> CHR ''-''" using d by (simp add: plain_char)
  have tw: "takeWhile is_digit c = c" using assms(2) by (simp add: takeWhile_eq_all_conv)
  have "int (decimal c) < 2 ^ 63" using assms(3) by simp
  then show ?thesis using sk sg assms(1) by (simp add: Sscanf_d_def Let_def tw)
qed

lemma Sscanf_d_too_big:
  assumes "c \<noteq> []" "\<forall>x\<in>set c. is_digit x" "2 ^ 63 \<le> decimal c"
  shows "Sscanf_d c = 0"
proof -
  have d: "is_digit (hd c)" using assms(1,2) by (cases c) auto
  have sk: "SkipSpace c = Some c" using assms(1) d by (simp add: SkipSpace_plain)
  have sg: "hd c \<noteq> CHR ''+'' \<and> hd c \<noteq> CHR ''-''" using d by (simp add: plain_char)
  have tw: "takeWhile is_digit c = c" using assms(2) by (simp add: takeWhile_eq_all_conv)
  have "\<not> int (decimal c) < 2 ^ 63" using assms(3) by simp
  then show ?thesis using sk sg assms(1) by (simp add: Sscanf_d_def Let_def tw)
qed

lemma Sscanf_d_letter:
  assumes "c = [] \<or> is_letter (hd c)"
  shows "Sscanf_d c = 0"
proof (cases "c = []")
  case True then show ?thesis by (simp add: Sscanf_d_def)
next
  case False
  with assms have l: "is_letter (hd c)" by simp
  have sk: "SkipSpace c = Some c" using False l by (simp add: SkipSpace_plain)
  have sg: "hd c \<noteq> CHR ''+'' \<and> hd c \<noteq> CHR ''-''" using l by (simp add: plain_char)
  have "\<not> is_digit (hd c)" using l by (auto simp: is_letter_def is_digit_def)
  then have tw: "takeWhile is_digit c = []" using False by (cases c) auto
  show ?thesis using sk sg False by (simp add: Sscanf_d_def Let_def tw)
qed

lemma compareVersions_eq:
  "compareVersions v1 v2 = 0 \<longleftrightarrow> (\<forall>k. component v1 k = component v2 k)"
proof
  assume z: "compareVersions v1 v2 = 0"
  then have "\<not> lex_gt (component v1) (component v2)" "\<not> lex_gt (component v2) (component v1)"
    using compareVersions_gt[of v1 v2] compareVersions_lt[of v1 v2] by auto
  then show "\<forall>k. component v1 k = component v2 k" using lex_total by blast
next
  assume e: "\<forall>k. component v1 k = component v2 k"
  then have "\<not> lex_gt (component v1) (component v2)" "\<not> lex_gt (component v2) (component v1)"
    by (auto simp: lex_gt_def)
  then have "compareVersions v1 v2 \<noteq> 1" "compareVersions v1 v2 \<noteq> - 1"
    using compareVersions_gt[of v1 v2] compareVersions_lt[of v1 v2] by auto
  then show "compareVersions v1 v2 = 0" using compareVersions_range[of v1 v2] by auto
qed

lemmas compareVersions_eval =
  compareVersions_def compareVersions_loop.simps Sscanf_d_def is_digit_def decimal_def
  digit_val_def space1_def space2_def space3_def

text \<open>
  C3, as amended. compareVersions splits both strings at the dots and compares the
  numbers of the parts from the left, a missing part counting as 0: the result is 1, -1
  or 0 as the first differing number is greater, less, or there is none. The number of a
  part is what \<open>Sscanf\<close> with \<open>%d\<close> reads: a part made of decimal digits only counts with
  its decimal value as long as that is below \<open>2^63\<close> and as 0 from there on, an empty part
  and a part that starts with a letter count as 0. The three examples of the
  specification hold.
\<close>

theorem compareVersions_lexicographic:
  "(compareVersions v1 v2 = 1 \<longleftrightarrow> lex_gt (component v1) (component v2)) \<and>
   (compareVersions v1 v2 = - 1 \<longleftrightarrow> lex_gt (component v2) (component v1)) \<and>
   (compareVersions v1 v2 = 0 \<longleftrightarrow> (\<forall>k. component v1 k = component v2 k)) \<and>
   (\<forall>c. c \<noteq> [] \<and> (\<forall>x\<in>set c. is_digit x) \<and> decimal c < 2 ^ 63 \<longrightarrow>
        Sscanf_d c = int (decimal c)) \<and>
   (\<forall>c. c \<noteq> [] \<and> (\<forall>x\<in>set c. is_digit x) \<and> 2 ^ 63 \<le> decimal c \<longrightarrow>
        Sscanf_d c = 0) \<and>
   (\<forall>c. c = [] \<or> is_letter (hd c) \<longrightarrow> Sscanf_d c = 0) \<and>
   compareVersions ''2.1.0'' ''2.0.9'' = 1 \<and>
   compareVersions ''2.0'' ''2.0.0'' = 0 \<and>
   compareVersions ''1.9'' ''1.10'' = - 1"
proof -
  have ex: "compareVersions ''2.1.0'' ''2.0.9'' = 1" "compareVersions ''2.0'' ''2.0.0'' = 0"
    "compareVersions ''1.9'' ''1.10'' = - 1"
    by (simp_all add: compareVersions_eval)
  show ?thesis
    using compareVersions_gt[of v1 v2] compareVersions_lt[of v1 v2] compareVersions_eq[of v1 v2]
      Sscanf_d_digits Sscanf_d_too_big Sscanf_d_letter ex
    by blast
qed

theorem compareVersions_lexicographic_witness:
  "compareVersions ''2.1.0'' ''2.0.9'' = 1 \<and>
   lex_gt (component ''2.1.0'') (component ''2.0.9'') \<and>
   Sscanf_d ''10'' = 10 \<and> Sscanf_d ''99999999999999999999'' = 0 \<and> Sscanf_d ''beta'' = 0"
proof -
  have d: "''10'' \<noteq> [] \<and> (\<forall>x\<in>set ''10''. is_digit x) \<and> decimal ''10'' < 2 ^ 63"
    by (simp add: is_digit_def decimal_def digit_val_def)
  have b: "''99999999999999999999'' \<noteq> [] \<and> (\<forall>x\<in>set ''99999999999999999999''. is_digit x) \<and>
           2 ^ 63 \<le> decimal ''99999999999999999999''"
    by (simp add: is_digit_def decimal_def digit_val_def)
  have l: "''beta'' = [] \<or> is_letter (hd ''beta'')"
    by (simp add: is_letter_def)
  have n: "int (decimal ''10'') = 10"
    by (simp add: decimal_def digit_val_def)
  note t = compareVersions_lexicographic[of "''2.1.0''" "''2.0.9''"]
  have "compareVersions ''2.1.0'' ''2.0.9'' = 1" using t by blast
  moreover have "lex_gt (component ''2.1.0'') (component ''2.0.9'')" using t by blast
  moreover have "Sscanf_d ''10'' = 10" using t d n by metis
  moreover have "Sscanf_d ''99999999999999999999'' = 0" using t b by blast
  moreover have "Sscanf_d ''beta'' = 0" using t l by blast
  ultimately show ?thesis by blast
qed

text \<open>
  C3 as stated fails where a part is a number that does not fit into 64 bits: the code
  reads it as 0, so that 1.99999999999999999999 compares less than 1.5.
\<close>

theorem compareVersions_overflow_counterexample:
  "spec_compareVersions ''1.99999999999999999999'' ''1.5'' = 1 \<and>
   compareVersions ''1.99999999999999999999'' ''1.5'' = - 1"
  by (simp add: compareVersions_eval spec_compareVersions_def spec_number_def)

subsection \<open>The usage expression\<close>

lemma match_usage_groups:
  assumes "match_usage rest = Some (owner, repo, tag)"
  shows "owner \<noteq> []" "CHR ''/'' \<notin> set owner" "repo \<noteq> []" "CHR ''@'' \<notin> set repo"
    "tag \<noteq> []" "\<forall>c\<in>set tag. \<not> re_space c"
proof -
  define pre where "pre = takeWhile (\<lambda>c. c \<noteq> CHR ''/'') rest"
  define from_slash where "from_slash = dropWhile (\<lambda>c. c \<noteq> CHR ''/'') rest"
  define from_at where "from_at = dropWhile (\<lambda>c. c \<noteq> CHR ''@'') (tl from_slash)"
  have m: "pre \<noteq> []" "from_slash \<noteq> []"
    "repo = takeWhile (\<lambda>c. c \<noteq> CHR ''@'') (tl from_slash)" "repo \<noteq> []"
    "tag = takeWhile (\<lambda>c. \<not> re_space c) (tl from_at)" "tag \<noteq> []"
    "owner = (if dropWhile re_space pre = [] then [last pre] else dropWhile re_space pre)"
    using assms
    unfolding match_usage_def pre_def from_slash_def from_at_def
    by (auto simp: Let_def split: if_splits)
  have pre_noslash: "CHR ''/'' \<notin> set pre"
    unfolding pre_def using set_takeWhileD by fastforce
  show "owner \<noteq> []" using m(7) by auto
  have "set owner \<subseteq> set pre"
    using m(1,7) set_dropWhileD[of _ re_space pre] by (auto split: if_splits)
  then show "CHR ''/'' \<notin> set owner" using pre_noslash by blast
  show "repo \<noteq> []" by (rule m(4))
  show "CHR ''@'' \<notin> set repo" unfolding m(3) using set_takeWhileD by fastforce
  show "tag \<noteq> []" by (rule m(6))
  show "\<forall>c\<in>set tag. \<not> re_space c" unfolding m(5) using set_takeWhileD by fastforce
qed

lemma usageRegex_groups:
  assumes "usageRegex line = Some (owner, repo, tag)"
  shows "owner \<noteq> []" "CHR ''/'' \<notin> set owner" "repo \<noteq> []" "CHR ''@'' \<notin> set repo"
    "tag \<noteq> []" "\<forall>c\<in>set tag. \<not> re_space c"
proof -
  have "\<exists>rest. match_usage rest = Some (owner, repo, tag)"
    using assms
    by (induction line rule: usageRegex.induct) (auto split: if_splits option.splits)
  then obtain rest where "match_usage rest = Some (owner, repo, tag)" ..
  from match_usage_groups[OF this]
  show "owner \<noteq> []" "CHR ''/'' \<notin> set owner" "repo \<noteq> []" "CHR ''@'' \<notin> set repo"
    "tag \<noteq> []" "\<forall>c\<in>set tag. \<not> re_space c"
    by auto
qed

lemma takeWhile_stop:
  "\<forall>x\<in>set xs. P x \<Longrightarrow> \<not> P y \<Longrightarrow> takeWhile P (xs @ y # ys) = xs"
  by (induction xs) auto

lemma dropWhile_stop:
  "\<forall>x\<in>set xs. P x \<Longrightarrow> \<not> P y \<Longrightarrow> dropWhile P (xs @ y # ys) = y # ys"
  by (induction xs) auto

lemma match_usage_new:
  assumes "owner \<noteq> []" "CHR ''/'' \<notin> set owner" "repo \<noteq> []" "CHR ''@'' \<notin> set repo"
    "sha \<noteq> []" "\<forall>c\<in>set sha. \<not> re_space c"
  shows "\<exists>owner'. match_usage ('' '' @ owner @ ''/'' @ repo @ ''@'' @ sha @ '' '' @ comment)
           = Some (owner', repo, sha)"
proof -
  let ?rest = "'' '' @ owner @ ''/'' @ repo @ ''@'' @ sha @ '' '' @ comment"
  have r: "?rest = ('' '' @ owner) @ CHR ''/'' # (repo @ ''@'' @ sha @ '' '' @ comment)" by simp
  have p: "\<forall>x\<in>set ('' '' @ owner). x \<noteq> CHR ''/''" using assms(2) by auto
  have pre: "takeWhile (\<lambda>c. c \<noteq> CHR ''/'') ?rest = '' '' @ owner"
    unfolding r using p by (intro takeWhile_stop) auto
  have fs: "dropWhile (\<lambda>c. c \<noteq> CHR ''/'') ?rest = CHR ''/'' # (repo @ ''@'' @ sha @ '' '' @ comment)"
    unfolding r using p by (intro dropWhile_stop) auto
  have r2: "repo @ ''@'' @ sha @ '' '' @ comment = repo @ CHR ''@'' # (sha @ '' '' @ comment)" by simp
  have q: "\<forall>x\<in>set repo. x \<noteq> CHR ''@''" using assms(4) by auto
  have rp: "takeWhile (\<lambda>c. c \<noteq> CHR ''@'') (repo @ ''@'' @ sha @ '' '' @ comment) = repo"
    unfolding r2 using q by (intro takeWhile_stop) auto
  have fa: "dropWhile (\<lambda>c. c \<noteq> CHR ''@'') (repo @ ''@'' @ sha @ '' '' @ comment)
      = CHR ''@'' # (sha @ '' '' @ comment)"
    unfolding r2 using q by (intro dropWhile_stop) auto
  have r3: "sha @ '' '' @ comment = sha @ CHR '' '' # comment" by simp
  have tg: "takeWhile (\<lambda>c. \<not> re_space c) (sha @ '' '' @ comment) = sha"
    unfolding r3 using assms(6) by (intro takeWhile_stop) (auto simp: re_space_def)
  show ?thesis
    unfolding match_usage_def pre fs by (simp add: Let_def rp fa tg assms del: append.simps)
qed

lemma usageRegex_indent:
  assumes "\<forall>c\<in>set ws. c = CHR '' '' \<or> c = CHR 0x09"
  shows "usageRegex (ws @ rest) = usageRegex rest"
  using assms by (induction ws) auto

lemma usageRegex_new:
  assumes "owner \<noteq> []" "CHR ''/'' \<notin> set owner" "repo \<noteq> []" "CHR ''@'' \<notin> set repo"
    "sha \<noteq> []" "\<forall>c\<in>set sha. \<not> re_space c"
  shows "\<exists>owner'. usageRegex (leadingWhitespace line @ newUsage e owner repo sha tag)
           = Some (owner', repo, sha)"
proof -
  have ws: "\<forall>c\<in>set (leadingWhitespace line). c = CHR '' '' \<or> c = CHR 0x09"
    unfolding leadingWhitespace_def using set_takeWhileD by fastforce
  obtain owner' where m: "match_usage ('' '' @ owner @ ''/'' @ repo @ ''@'' @ sha @ '' '' @ versionTag e tag)
      = Some (owner', repo, sha)"
    using match_usage_new[OF assms] by blast
  have "usageRegex (newUsage e owner repo sha tag) = Some (owner', repo, sha)"
    using m unfolding newUsage_def by simp
  then show ?thesis using usageRegex_indent[OF ws] by simp
qed

lemma hex_not_space: "c \<in> set ''0123456789abcdef'' \<Longrightarrow> \<not> re_space c"
  unfolding re_space_def by auto

lemma is_commit_hash_nonempty:
  assumes "is_commit_hash sha"
  shows "sha \<noteq> []"
proof
  assume "sha = []"
  then have "length sha = 0" by simp
  moreover have "length sha = 40" using assms unfolding is_commit_hash_def by (rule conjunct1)
  ultimately show False by simp
qed

lemma is_commit_hash_no_space:
  assumes "is_commit_hash sha"
  shows "\<forall>c\<in>set sha. \<not> re_space c"
proof
  fix c assume c: "c \<in> set sha"
  have "list_all (\<lambda>c. c \<in> set ''0123456789abcdef'') sha"
    using assms unfolding is_commit_hash_def by (rule conjunct2)
  then have "c \<in> set ''0123456789abcdef''" using c unfolding list_all_iff by blast
  then show "\<not> re_space c" by (rule hex_not_space)
qed

subsection \<open>One line\<close>

lemma process_line_skip:
  assumes "usageRegex line = Some (owner, repo, tag)"
    and "isAllowedOrg e (config w) owner \<or> is_commit_hash tag"
  shows "process_line e filePath w line = (Continue, w, line, False)"
  using assms by (simp add: process_line_def)

lemma process_line_no_match:
  assumes "usageRegex line = None"
  shows "process_line e filePath w line = (Continue, w, line, False)"
  using assms by (simp add: process_line_def)

lemma process_line_cases:
  assumes "process_line e filePath w line = (oc, w', line', changed)"
  obtains
    (skip) "oc = Continue" "w' = w" "line' = line" "\<not> changed"
      "usageRegex line = None \<or>
       (\<exists>owner repo tag. usageRegex line = Some (owner, repo, tag) \<and>
          (isAllowedOrg e (config w) owner \<or> is_commit_hash tag))"
  | (cached) owner repo tag commitSha where
      "usageRegex line = Some (owner, repo, tag)"
      "\<not> isAllowedOrg e (config w) owner" "\<not> is_commit_hash tag"
      "accepted (config w) (key_of owner repo tag) = Some commitSha"
      "oc = Continue" "changed"
      "w' = emit [Separator, PreviouslyAccepted (key_of owner repo tag) commitSha] w"
      "line' = leadingWhitespace line @ newUsage e owner repo commitSha tag"
  | (failed) owner repo tag err reqs where
      "usageRegex line = Some (owner, repo, tag)"
      "\<not> isAllowedOrg e (config w) owner" "\<not> is_commit_hash tag"
      "accepted (config w) (key_of owner repo tag) = None"
      "getCommitSha e owner repo tag = (Inl err, reqs)"
      "oc = Continue" "\<not> changed" "line' = line"
      "w' = emit ([Separator] @ reqs @ [ResolveFailed (key_of owner repo tag) err]) w"
  | (yes) owner repo tag commitSha reqs w1 m where
      "usageRegex line = Some (owner, repo, tag)"
      "\<not> isAllowedOrg e (config w) owner" "\<not> is_commit_hash tag"
      "accepted (config w) (key_of owner repo tag) = None"
      "getCommitSha e owner repo tag = (Inr commitSha, reqs)"
      "w1 = after_prompt e filePath w line owner repo tag commitSha reqs"
      "answers e (asked w) = ''y''" "oc = Continue" "changed"
      "w' = w1\<lparr>config := (config w1)\<lparr>AcceptedMapping :=
                 Some (m(key_of owner repo tag \<mapsto> commitSha))\<rparr>\<rparr>"
      "line' = leadingWhitespace line @ newUsage e owner repo commitSha tag"
      "AcceptedMapping (config w) = Some m"
  | (panic) owner repo tag commitSha reqs where
      "usageRegex line = Some (owner, repo, tag)"
      "\<not> isAllowedOrg e (config w) owner" "\<not> is_commit_hash tag"
      "accepted (config w) (key_of owner repo tag) = None"
      "getCommitSha e owner repo tag = (Inr commitSha, reqs)"
      "answers e (asked w) = ''y''" "AcceptedMapping (config w) = None"
      "oc = Panic" "\<not> changed" "line' = line"
      "w' = emit [NilMapPanic] (after_prompt e filePath w line owner repo tag commitSha reqs)"
  | (no) owner repo tag commitSha reqs where
      "usageRegex line = Some (owner, repo, tag)"
      "\<not> isAllowedOrg e (config w) owner" "\<not> is_commit_hash tag"
      "accepted (config w) (key_of owner repo tag) = None"
      "getCommitSha e owner repo tag = (Inr commitSha, reqs)"
      "answers e (asked w) = ''n''" "oc = Continue" "\<not> changed" "line' = line"
      "w' = after_prompt e filePath w line owner repo tag commitSha reqs"
  | (allow) owner repo tag commitSha reqs w1 where
      "usageRegex line = Some (owner, repo, tag)"
      "\<not> isAllowedOrg e (config w) owner" "\<not> is_commit_hash tag"
      "accepted (config w) (key_of owner repo tag) = None"
      "getCommitSha e owner repo tag = (Inr commitSha, reqs)"
      "w1 = after_prompt e filePath w line owner repo tag commitSha reqs"
      "answers e (asked w) = ''a''" "oc = Continue" "\<not> changed" "line' = line"
      "w' = emit [AddedOrg owner]
              (w1\<lparr>config := (config w1)\<lparr>AllowedOrgs := AllowedOrgs (config w1) @ [owner]\<rparr>\<rparr>)"
  | (quit) owner repo tag commitSha reqs w1 where
      "usageRegex line = Some (owner, repo, tag)"
      "\<not> isAllowedOrg e (config w) owner" "\<not> is_commit_hash tag"
      "accepted (config w) (key_of owner repo tag) = None"
      "getCommitSha e owner repo tag = (Inr commitSha, reqs)"
      "w1 = after_prompt e filePath w line owner repo tag commitSha reqs"
      "answers e (asked w) = ''q''" "oc = Exit 0" "\<not> changed" "line' = line"
      "w' = (if config_writable e then (emit [Quitting] w1)\<lparr>persisted := Some (config w1)\<rparr>
             else emit [SaveFailed] (emit [Quitting] w1))"
  | (invalid) owner repo tag commitSha reqs where
      "usageRegex line = Some (owner, repo, tag)"
      "\<not> isAllowedOrg e (config w) owner" "\<not> is_commit_hash tag"
      "accepted (config w) (key_of owner repo tag) = None"
      "getCommitSha e owner repo tag = (Inr commitSha, reqs)"
      "answers e (asked w) \<notin> {''y'', ''n'', ''a'', ''q''}"
      "oc = Continue" "\<not> changed" "line' = line"
      "w' = emit [InvalidOption] (after_prompt e filePath w line owner repo tag commitSha reqs)"
proof (cases "usageRegex line")
  case None
  then show ?thesis using assms skip by (simp add: process_line_def)
next
  case (Some g)
  obtain owner repo tag where g: "g = (owner, repo, tag)" by (cases g) auto
  note m = Some[unfolded g]
  show ?thesis
  proof (cases "isAllowedOrg e (config w) owner \<or> is_commit_hash tag")
    case True
    then show ?thesis using assms m skip by (simp add: process_line_def)
  next
    case False
    then have na: "\<not> isAllowedOrg e (config w) owner" and nh: "\<not> is_commit_hash tag" by auto
    show ?thesis
    proof (cases "accepted (config w) (key_of owner repo tag)")
      case (Some commitSha)
      then show ?thesis
        using assms m False cached[of owner repo tag commitSha]
        by (simp add: process_line_def key_of_def)
    next
      case None
      note nk = None
      obtain res reqs where r: "getCommitSha e owner repo tag = (res, reqs)"
        by (cases "getCommitSha e owner repo tag") auto
      show ?thesis
      proof (cases res)
        case (Inl err)
        then show ?thesis
          using assms m False nk r failed[of owner repo tag err reqs]
          by (simp add: process_line_def key_of_def)
      next
        case (Inr commitSha)
        note r' = r[unfolded Inr]
        define w1 where "w1 = after_prompt e filePath w line owner repo tag commitSha reqs"
        have pl: "process_line e filePath w line =
          (if answers e (asked w) = ''y'' then
             (case AcceptedMapping (config w) of
                None \<Rightarrow> (Panic, emit [NilMapPanic] w1, line, False)
              | Some m \<Rightarrow>
                  (Continue, w1\<lparr>config := (config w1)\<lparr>AcceptedMapping :=
                      Some (m(key_of owner repo tag \<mapsto> commitSha))\<rparr>\<rparr>,
                   leadingWhitespace line @ newUsage e owner repo commitSha tag, True))
           else if answers e (asked w) = ''n'' then (Continue, w1, line, False)
           else if answers e (asked w) = ''a'' then
             (Continue, emit [AddedOrg owner]
                (w1\<lparr>config := (config w1)\<lparr>AllowedOrgs := AllowedOrgs (config w1) @ [owner]\<rparr>\<rparr>),
              line, False)
           else if answers e (asked w) = ''q'' then
             (Exit 0, (if config_writable e then (emit [Quitting] w1)\<lparr>persisted := Some (config w1)\<rparr>
                       else emit [SaveFailed] (emit [Quitting] w1)), line, False)
           else (Continue, emit [InvalidOption] w1, line, False))"
          using m False nk r'
          by (simp add: process_line_def Let_def saveConfig_def key_of_def w1_def after_prompt_def
                emit_def split: option.split)
        consider "answers e (asked w) = ''y''" | "answers e (asked w) = ''n''"
          | "answers e (asked w) = ''a''" | "answers e (asked w) = ''q''"
          | "answers e (asked w) \<notin> {''y'', ''n'', ''a'', ''q''}"
          by blast
        then show ?thesis
        proof cases
          case 1
          show ?thesis
          proof (cases "AcceptedMapping (config w)")
            case None
            note nil = None
            have "oc = Panic" "\<not> changed" "line' = line"
              "w' = emit [NilMapPanic] (after_prompt e filePath w line owner repo tag commitSha reqs)"
              using assms pl 1 nil w1_def by auto
            then show ?thesis
              using 1 nil panic[of owner repo tag commitSha reqs, OF m na nh nk r'] by blast
          next
            case (Some mp)
            then have "oc = Continue" "changed"
              "w' = w1\<lparr>config := (config w1)\<lparr>AcceptedMapping :=
                   Some (mp(key_of owner repo tag \<mapsto> commitSha))\<rparr>\<rparr>"
              "line' = leadingWhitespace line @ newUsage e owner repo commitSha tag"
              using assms pl 1 by auto
            then show ?thesis
              using 1 Some yes[of owner repo tag commitSha reqs w1 mp, OF m na nh nk r' w1_def]
              by blast
          qed
        next
          case 2
          then have "oc = Continue" "\<not> changed" "line' = line" 
            "w' = after_prompt e filePath w line owner repo tag commitSha reqs"
            using assms pl w1_def by auto
          then show ?thesis
            using 2 no[of owner repo tag commitSha reqs, OF m na nh nk r'] by blast
        next
          case 3
          then have "oc = Continue" "\<not> changed" "line' = line" 
            "w' = emit [AddedOrg owner]
              (w1\<lparr>config := (config w1)\<lparr>AllowedOrgs := AllowedOrgs (config w1) @ [owner]\<rparr>\<rparr>)"
            using assms pl by auto
          then show ?thesis
            using 3 allow[of owner repo tag commitSha reqs w1, OF m na nh nk r' w1_def] by blast
        next
          case 4
          then have "oc = Exit 0" "\<not> changed" "line' = line" 
            "w' = (if config_writable e then (emit [Quitting] w1)\<lparr>persisted := Some (config w1)\<rparr>
             else emit [SaveFailed] (emit [Quitting] w1))"
            using assms pl by auto
          then show ?thesis
            using 4 quit[of owner repo tag commitSha reqs w1, OF m na nh nk r' w1_def] by blast
        next
          case 5
          then have "oc = Continue" "\<not> changed" "line' = line" 
            "w' = emit [InvalidOption] (after_prompt e filePath w line owner repo tag commitSha reqs)"
            using assms pl w1_def by auto
          then show ?thesis
            using 5 invalid[of owner repo tag commitSha reqs, OF m na nh nk r'] by blast
        qed
      qed
    qed
  qed
qed

lemma emit_simps [simp]:
  "config (emit es w) = config w" "asked (emit es w) = asked w" "disk (emit es w) = disk w"
  "persisted (emit es w) = persisted w" "out (emit es w) = out w @ es"
  by (simp_all add: emit_def)

lemma after_prompt_simps [simp]:
  "config (after_prompt e f w line owner repo tag sha reqs) = config w"
  "asked (after_prompt e f w line owner repo tag sha reqs) = asked w + 1"
  "disk (after_prompt e f w line owner repo tag sha reqs) = disk w"
  "persisted (after_prompt e f w line owner repo tag sha reqs) = persisted w"
  "out (after_prompt e f w line owner repo tag sha reqs) =
     out w @ [Separator] @ reqs @
       [Prompt f line (checkUrl owner repo tag) (newUsage e owner repo sha tag)]"
  by (simp_all add: after_prompt_def)

lemma accepted_simps [simp]:
  "accepted (c\<lparr>AllowedOrgs := orgs\<rparr>) = accepted c"
  "accepted (c\<lparr>AcceptedMapping := Some m\<rparr>) = m"
  "accepted \<lparr>AllowedOrgs = orgs, AcceptedMapping = Some m\<rparr> = m"
  "accepted \<lparr>AllowedOrgs = orgs, AcceptedMapping = None\<rparr> = Map.empty"
  by (simp_all add: accepted_def)

lemma accepted_Some: "AcceptedMapping c = Some m \<Longrightarrow> accepted c = m"
  by (simp add: accepted_def)

lemma accepted_None: "AcceptedMapping c = None \<Longrightarrow> accepted c = Map.empty"
  by (simp add: accepted_def)

lemma isAllowedOrg_iff:
  "isAllowedOrg e c owner \<longleftrightarrow> (\<exists>org\<in>set (AllowedOrgs c). EqualFold e owner org)"
  by (simp add: isAllowedOrg_def list_ex_iff)

lemma process_line_frame:
  assumes "process_line e filePath w line = (oc, w', line', changed)"
  shows "disk w' = disk w"
    and "changed \<Longrightarrow> rewritten_from e line line'"
    and "\<not> changed \<Longrightarrow> line' = line"
proof -
  show "disk w' = disk w"
    using assms by (cases rule: process_line_cases) (auto split: if_splits)
  show "changed \<Longrightarrow> rewritten_from e line line'"
    using assms by (cases rule: process_line_cases) (auto simp: rewritten_from_def)
  show "\<not> changed \<Longrightarrow> line' = line"
    using assms by (cases rule: process_line_cases) auto
qed

lemma process_lines_frame:
  assumes "process_lines e filePath w ls = (oc, w', ls', changed)"
  shows "disk w' = disk w \<and>
         list_all2 (\<lambda>l l'. l' = l \<or> rewritten_from e l l') ls ls' \<and>
         (changed \<longrightarrow> (\<exists>i<length ls. rewritten_from e (ls ! i) (ls' ! i))) \<and>
         (\<not> changed \<and> oc = Continue \<longrightarrow> ls' = ls)"
  using assms
proof (induction ls arbitrary: w oc w' ls' changed)
  case Nil
  then show ?case by simp
next
  case (Cons l ls)
  obtain oc1 w1 l1 ch1 where s: "process_line e filePath w l = (oc1, w1, l1, ch1)"
    by (cases "process_line e filePath w l") auto
  note f = process_line_frame[OF s]
  have rel1: "l1 = l \<or> rewritten_from e l l1" using f(2,3) by (cases ch1) auto
  show ?case
  proof (cases "oc1 = Continue")
    case False
    then have r: "oc = oc1" "w' = w1" "ls' = l1 # ls" "changed = ch1"
      using Cons.prems s by (cases oc1; simp)+
    have "list_all2 (\<lambda>l l'. l' = l \<or> rewritten_from e l l') ls ls"
      by (simp add: list_all2_same)
    moreover have "changed \<longrightarrow> (\<exists>i<length (l # ls). rewritten_from e ((l # ls) ! i) (ls' ! i))"
      using r f(2) by (intro impI exI[of _ 0]) simp
    ultimately show ?thesis using r False f(1) rel1 by simp
  next
    case True
    note Continue = True
    obtain oc2 w2 ls2 ch2 where t: "process_lines e filePath w1 ls = (oc2, w2, ls2, ch2)"
      by (cases "process_lines e filePath w1 ls") auto
    have r: "oc = oc2" "w' = w2" "ls' = l1 # ls2" "changed = (ch1 \<or> ch2)"
      using Cons.prems s t Continue by auto
    note ih = Cons.IH[OF t]
    have ex: "changed \<longrightarrow> (\<exists>i<length (l # ls). rewritten_from e ((l # ls) ! i) (ls' ! i))"
    proof
      assume "changed"
      then consider "ch1" | "ch2" using r by auto
      then show "\<exists>i<length (l # ls). rewritten_from e ((l # ls) ! i) (ls' ! i)"
      proof cases
        case 1
        then show ?thesis using f(2) r by (intro exI[of _ 0]) simp
      next
        case 2
        then obtain i where "i < length ls" "rewritten_from e (ls ! i) (ls2 ! i)"
          using ih by blast
        then show ?thesis using r by (intro exI[of _ "Suc i"]) simp
      qed
    qed
    have "\<not> changed \<and> oc = Continue \<longrightarrow> ls' = l # ls"
      using r ih f(3) by auto
    then show ?thesis using r ih f(1) rel1 ex by simp
  qed
qed

lemma Split_nonempty: "Split sep s \<noteq> []"
  by (induction s) (auto split: list.splits)

lemma Join_Cons: "ps \<noteq> [] \<Longrightarrow> Join sep (p # ps) = p @ sep # Join sep ps"
  by (cases ps) auto

lemma Join_Split: "Join sep (Split sep s) = s"
proof (induction s)
  case Nil
  then show ?case by simp
next
  case (Cons c s)
  show ?case
  proof (cases "c = sep")
    case True
    then show ?thesis using Cons Split_nonempty[of sep s] by (simp add: Join_Cons)
  next
    case False
    obtain p ps where sp: "Split sep s = p # ps"
      using Split_nonempty[of sep s] by (cases "Split sep s") auto
    show ?thesis
    proof (cases ps)
      case Nil
      then show ?thesis using Cons sp False by simp
    next
      case (Cons q qs)
      then show ?thesis using Cons.IH sp False by simp
    qed
  qed
qed

lemmas usage_eval = match_usage_def re_space_def Let_def

lemmas model_eval =
  process_line_def usage_eval isAllowedOrg_def EqualFold_ASCII_def lower_def accepted_def
  is_commit_hash_def
  leadingWhitespace_def newUsage_def versionTag_def checkUrl_def emit_def saveConfig_def
  getCommitSha_def findLatestVersionTag_def get_object_def insertion_sort_def insert_sorted_def
  version_less_def TrimPrefix_def compareVersions_eval key_of_def

lemmas example_eval =
  example_env_def example_world_def example_remote_def sha_a_def sha_b_def sha_c_def sha_d_def

text \<open>
  C5. A reference whose ref is forty lower-case hexadecimal digits, and a reference whose
  owner equals an entry of the allow list under \<open>strings.EqualFold\<close> (whatever the case
  folding of the library is: the statement holds for every function \<open>EqualFold e\<close>), is
  skipped whatever its ref is: the line stays, and the state stays as it is, so nothing
  is printed, no answer is read and no request is sent.
\<close>

theorem pinned_or_allowed_is_skipped:
  assumes "usageRegex line = Some (owner, repo, tag)"
    and "(length tag = 40 \<and> set tag \<subseteq> set ''0123456789abcdef'') \<or>
         (\<exists>org\<in>set (AllowedOrgs (config w)). EqualFold e owner org)"
  shows "process_line e filePath w line = (Continue, w, line, False)"
proof -
  have "is_commit_hash tag" if "length tag = 40 \<and> set tag \<subseteq> set ''0123456789abcdef''"
    using that unfolding is_commit_hash_def list_all_iff by blast
  then show ?thesis
    using assms by (intro process_line_skip) (auto simp: isAllowedOrg_iff)
qed

theorem pinned_or_allowed_is_skipped_witness:
  "process_line example_env ''ci.yml'' example_world ''      - uses: Actions/checkout@v4''
     = (Continue, example_world, ''      - uses: Actions/checkout@v4'', False) \<and>
   process_line example_env ''ci.yml'' example_world
       ''  uses: acme/build@aaaaaaaaaaaaaaaaaaaaaaaaaaaaaaaaaaaaaaaa #v2''
     = (Continue, example_world,
        ''  uses: acme/build@aaaaaaaaaaaaaaaaaaaaaaaaaaaaaaaaaaaaaaaa #v2'', False)"
proof -
  have m1: "usageRegex ''      - uses: Actions/checkout@v4'' = Some (''Actions'', ''checkout'', ''v4'')"
    by (simp add: usage_eval)
  have h1: "(length ''v4'' = 40 \<and> set ''v4'' \<subseteq> set ''0123456789abcdef'') \<or>
      (\<exists>org\<in>set (AllowedOrgs (config example_world)). EqualFold example_env ''Actions'' org)"
    by (simp add: example_world_def example_env_def EqualFold_ASCII_def lower_def)
  have m2: "usageRegex ''  uses: acme/build@aaaaaaaaaaaaaaaaaaaaaaaaaaaaaaaaaaaaaaaa #v2''
      = Some (''acme'', ''build'', ''aaaaaaaaaaaaaaaaaaaaaaaaaaaaaaaaaaaaaaaa'')"
    by (simp add: usage_eval)
  have h2: "(length ''aaaaaaaaaaaaaaaaaaaaaaaaaaaaaaaaaaaaaaaa'' = 40 \<and>
       set ''aaaaaaaaaaaaaaaaaaaaaaaaaaaaaaaaaaaaaaaa'' \<subseteq> set ''0123456789abcdef'') \<or>
      (\<exists>org\<in>set (AllowedOrgs (config example_world)). EqualFold example_env ''acme'' org)"
    by simp
  show ?thesis
    using pinned_or_allowed_is_skipped[OF m1 h1, of "''ci.yml''"]
      pinned_or_allowed_is_skipped[OF m2 h2, of "''ci.yml''"]
    by simp
qed

text \<open>
  C4. A round of the loop rewrites its line only if the line holds a reference whose key
  is in the accepted mapping when the line is examined, or if the resolver has given a
  commit for this reference, the prompt for this line and this commit has been printed
  and the answer to it is y, in which case the key is recorded. With a key that is not in
  the mapping, every other answer (n, a, q or anything else) leaves the line as it is.
\<close>

theorem rewrite_needs_cache_hit_or_yes:
  assumes "process_line e filePath w line = (oc, w', line', changed)"
  shows "(changed \<or> line' \<noteq> line \<longrightarrow>
           (\<exists>owner repo tag.
              usageRegex line = Some (owner, repo, tag) \<and>
              (key_of owner repo tag \<in> dom (accepted (config w)) \<or>
               (answers e (asked w) = ''y'' \<and>
                (\<exists>commitSha reqs.
                   getCommitSha e owner repo tag = (Inr commitSha, reqs) \<and>
                   Prompt filePath line (checkUrl owner repo tag)
                     (newUsage e owner repo commitSha tag) \<in> set (out w') \<and>
                   accepted (config w') (key_of owner repo tag) = Some commitSha))))) \<and>
         (\<forall>owner repo tag.
            usageRegex line = Some (owner, repo, tag) \<and>
            key_of owner repo tag \<notin> dom (accepted (config w)) \<and>
            answers e (asked w) \<noteq> ''y'' \<longrightarrow> line' = line \<and> \<not> changed)"
  using assms
proof (cases rule: process_line_cases)
  case skip
  then show ?thesis by simp
next
  case (cached owner repo tag commitSha)
  then show ?thesis by auto
next
  case (failed owner repo tag err reqs)
  then show ?thesis by simp
next
  case (yes owner repo tag commitSha reqs w1 m)
  then show ?thesis by (auto simp: accepted_def)
next
  case (panic owner repo tag commitSha reqs)
  then show ?thesis by simp
next
  case (no owner repo tag commitSha reqs)
  then show ?thesis by simp
next
  case (allow owner repo tag commitSha reqs w1)
  then show ?thesis by simp
next
  case (quit owner repo tag commitSha reqs w1)
  then show ?thesis by simp
next
  case (invalid owner repo tag commitSha reqs)
  then show ?thesis by simp
qed

lemma example_yes:
  "process_line example_env ''ci.yml'' example_world ''    uses: acme/build@v2  # pin'' =
     (Continue,
      example_world
        \<lparr>config := \<lparr>AllowedOrgs = [''actions''],
                     AcceptedMapping = Some [''acme/build@v2'' \<mapsto> sha_b]\<rparr>,
         asked := 1,
         out := [Separator, HttpGet ''https://api.github.com/repos/acme/build/tags'',
                 Prompt ''ci.yml'' ''    uses: acme/build@v2  # pin''
                   ''https://github.com/acme/build/releases/tag/v2''
                   (''uses: acme/build@'' @ sha_b @ '' #v2'')]\<rparr>,
      ''    uses: acme/build@'' @ sha_b @ '' #v2'', True)"
  by (simp add: model_eval example_eval)

lemma example_no:
  "process_line (example_env\<lparr>answers := (\<lambda>n. ''n'')\<rparr>) ''ci.yml'' example_world
       ''    uses: acme/build@v2  # pin'' =
     (Continue,
      example_world
        \<lparr>asked := 1,
         out := [Separator, HttpGet ''https://api.github.com/repos/acme/build/tags'',
                 Prompt ''ci.yml'' ''    uses: acme/build@v2  # pin''
                   ''https://github.com/acme/build/releases/tag/v2''
                   (''uses: acme/build@'' @ sha_b @ '' #v2'')]\<rparr>,
      ''    uses: acme/build@v2  # pin'', False)"
  by (simp add: model_eval example_eval)

theorem rewrite_needs_cache_hit_or_yes_witness:
  "(\<exists>owner repo tag.
      usageRegex ''    uses: acme/build@v2  # pin'' = Some (owner, repo, tag) \<and>
      (key_of owner repo tag \<in> dom (accepted (config example_world)) \<or>
       answers example_env (asked example_world) = ''y'')) \<and>
   usageRegex ''    uses: acme/build@v2  # pin'' = Some (''acme'', ''build'', ''v2'') \<and>
   key_of ''acme'' ''build'' ''v2'' \<notin> dom (accepted (config example_world)) \<and>
   answers (example_env\<lparr>answers := (\<lambda>n. ''n'')\<rparr>) (asked example_world) \<noteq> ''y''"
proof -
  have "\<exists>owner repo tag.
      usageRegex ''    uses: acme/build@v2  # pin'' = Some (owner, repo, tag) \<and>
      (key_of owner repo tag \<in> dom (accepted (config example_world)) \<or>
       answers example_env (asked example_world) = ''y'')"
    using rewrite_needs_cache_hit_or_yes[OF example_yes] by blast
  moreover have "usageRegex ''    uses: acme/build@v2  # pin'' = Some (''acme'', ''build'', ''v2'')"
    by (simp add: usage_eval)
  moreover have "key_of ''acme'' ''build'' ''v2'' \<notin> dom (accepted (config example_world))"
    by (simp add: example_eval key_of_def)
  moreover have "answers (example_env\<lparr>answers := (\<lambda>n. ''n'')\<rparr>) (asked example_world) \<noteq> ''y''"
    by simp
  ultimately show ?thesis using rewrite_needs_cache_hit_or_yes[OF example_no] by blast
qed

lemma config_le_refl [simp]: "config_le c c"
  by (simp add: config_le_def)









lemmas run_eval = processFile_def main_def example_disk_world_def example_quit_env_def
  example_file_def example_file_pinned_def

lemma example_split:
  "Split (CHR 0x0A) example_file =
     [''steps:'' @ [CHR 0x0D], ''  - uses: actions/checkout@v4'' @ [CHR 0x0D],
      ''    uses: acme/build@v2'', [CHR 0x09] @ ''uses: acme/build@master'', '''']"
  by (simp add: example_file_def)

lemma example_run:
  "processFile example_env example_disk_world ''ci.yml'' =
     (Continue,
      example_world
        \<lparr>config := \<lparr>AllowedOrgs = [''actions''],
                     AcceptedMapping = Some [''acme/build@v2'' \<mapsto> sha_b,
                                        ''acme/build@master'' \<mapsto> sha_d]\<rparr>,
         asked := 2,
         disk := [''ci.yml'' \<mapsto> example_file_pinned],
         out := [Separator, HttpGet ''https://api.github.com/repos/acme/build/tags'',
                 Prompt ''ci.yml'' ''    uses: acme/build@v2''
                   ''https://github.com/acme/build/releases/tag/v2''
                   (''uses: acme/build@'' @ sha_b @ '' #v2''),
                 Separator,
                 HttpGet ''https://api.github.com/repos/acme/build/git/ref/heads/master'',
                 Prompt ''ci.yml'' ([CHR 0x09] @ ''uses: acme/build@master'')
                   ''https://github.com/acme/build/commits/master/''
                   (''uses: acme/build@'' @ sha_d @ '' #master-2025-01-01''),
                 Updated ''ci.yml'']\<rparr>)"
  by (simp add: run_eval model_eval example_eval)



lemma example_master_yes:
  "process_line example_env ''ci.yml'' example_world ([CHR 0x09] @ ''uses: acme/build@master'') =
     (Continue,
      example_world
        \<lparr>config := \<lparr>AllowedOrgs = [''actions''],
                     AcceptedMapping = Some [''acme/build@master'' \<mapsto> sha_d]\<rparr>,
         asked := 1,
         out := [Separator,
                 HttpGet ''https://api.github.com/repos/acme/build/git/ref/heads/master'',
                 Prompt ''ci.yml'' ([CHR 0x09] @ ''uses: acme/build@master'')
                   ''https://github.com/acme/build/commits/master/''
                   (''uses: acme/build@'' @ sha_d @ '' #master-2025-01-01'')]\<rparr>,
      [CHR 0x09] @ ''uses: acme/build@'' @ sha_d @ '' #master-2025-01-01'', True)"
  by (simp add: model_eval example_eval)

lemma rewritten_line_skipped:
  assumes "usageRegex line = Some (owner, repo, tag)" and "is_commit_hash commitSha"
  shows "\<exists>owner'. usageRegex (leadingWhitespace line @ newUsage e owner repo commitSha tag)
           = Some (owner', repo, commitSha)"
    and "process_line e2 f2 w2 (leadingWhitespace line @ newUsage e owner repo commitSha tag)
           = (Continue, w2, leadingWhitespace line @ newUsage e owner repo commitSha tag, False)"
proof -
  note g = usageRegex_groups[OF assms(1)]
  show m: "\<exists>owner'. usageRegex (leadingWhitespace line @ newUsage e owner repo commitSha tag)
           = Some (owner', repo, commitSha)"
    by (rule usageRegex_new[OF g(1) g(2) g(3) g(4) is_commit_hash_nonempty[OF assms(2)]
          is_commit_hash_no_space[OF assms(2)]])
  then obtain owner' where
    "usageRegex (leadingWhitespace line @ newUsage e owner repo commitSha tag)
       = Some (owner', repo, commitSha)" ..
  then show "process_line e2 f2 w2 (leadingWhitespace line @ newUsage e owner repo commitSha tag)
           = (Continue, w2, leadingWhitespace line @ newUsage e owner repo commitSha tag, False)"
    using assms(2) by (intro process_line_skip) auto
qed

text \<open>
  C10. A line that a round has rewritten is the old indentation followed by the new usage
  text. When the commit written into it is forty lower-case hexadecimal digits, the usage
  expression reads this commit as the ref of the new line, and every later round on the
  new line, in any run (any date, any configuration, any answers, any remote service),
  skips it: line and state stay as they are. So the comment at its end, the date of a
  master pin included, is never written again.
\<close>

theorem rewritten_line_is_left_alone:
  "(process_line e filePath w line = (oc, w', line', changed) \<and> changed \<longrightarrow>
      (\<exists>owner repo tag commitSha.
         usageRegex line = Some (owner, repo, tag) \<and>
         line' = leadingWhitespace line @ newUsage e owner repo commitSha tag)) \<and>
   (usageRegex line = Some (owner, repo, tag) \<and> is_commit_hash commitSha \<longrightarrow>
      (\<exists>owner'. usageRegex (leadingWhitespace line @ newUsage e owner repo commitSha tag)
                  = Some (owner', repo, commitSha)) \<and>
      (\<forall>e2 f2 w2.
         process_line e2 f2 w2 (leadingWhitespace line @ newUsage e owner repo commitSha tag)
           = (Continue, w2, leadingWhitespace line @ newUsage e owner repo commitSha tag,
              False)))"
proof (intro conjI impI)
  assume "process_line e filePath w line = (oc, w', line', changed) \<and> changed"
  then have "rewritten_from e line line'"
    using process_line_frame(2) by blast
  then show "\<exists>owner repo tag commitSha.
         usageRegex line = Some (owner, repo, tag) \<and>
         line' = leadingWhitespace line @ newUsage e owner repo commitSha tag"
    by (simp add: rewritten_from_def)
next
  assume a: "usageRegex line = Some (owner, repo, tag) \<and> is_commit_hash commitSha"
  then show "\<exists>owner'. usageRegex (leadingWhitespace line @ newUsage e owner repo commitSha tag)
                  = Some (owner', repo, commitSha)"
    using rewritten_line_skipped(1) by blast
  show "\<forall>e2 f2 w2.
         process_line e2 f2 w2 (leadingWhitespace line @ newUsage e owner repo commitSha tag)
           = (Continue, w2, leadingWhitespace line @ newUsage e owner repo commitSha tag,
              False)"
    using a rewritten_line_skipped(2) by blast
qed

theorem rewritten_line_is_left_alone_witness:
  "usageRegex ([CHR 0x09] @ ''uses: acme/build@master'') = Some (''acme'', ''build'', ''master'') \<and>
   is_commit_hash sha_d \<and>
   process_line (example_env\<lparr>today := ''2025-06-30''\<rparr>) ''ci.yml'' example_world
       ([CHR 0x09] @ ''uses: acme/build@'' @ sha_d @ '' #master-2025-01-01'')
     = (Continue, example_world,
        [CHR 0x09] @ ''uses: acme/build@'' @ sha_d @ '' #master-2025-01-01'', False)"
proof -
  have u: "usageRegex ([CHR 0x09] @ ''uses: acme/build@master'')
      = Some (''acme'', ''build'', ''master'')"
    by (simp add: usage_eval)
  have h: "is_commit_hash sha_d"
    by (simp add: is_commit_hash_def sha_d_def)
  have l: "leadingWhitespace ([CHR 0x09] @ ''uses: acme/build@master'') @
           newUsage example_env ''acme'' ''build'' sha_d ''master''
           = [CHR 0x09] @ ''uses: acme/build@'' @ sha_d @ '' #master-2025-01-01''"
    by (simp add: leadingWhitespace_def newUsage_def versionTag_def example_env_def)
  show ?thesis
    using rewritten_line_is_left_alone[where line = "[CHR 0x09] @ ''uses: acme/build@master''"
        and owner = "''acme''" and repo = "''build''" and tag = "''master''"
        and commitSha = sha_d and e = example_env] u h
    unfolding l by blast
qed

text \<open>
  C8 at the branch \<open>main\<close>. getCommitSha treats \<open>main\<close> as a branch, like \<open>master\<close>, but
  the comment of the rewritten line is chosen by a test for \<open>master\<close> alone (line 621): a
  reference to \<open>main\<close> gets the comment \<open>#main\<close>, without a date, where a reference to
  \<open>master\<close> gets \<open>#master-\<close> and the date.
\<close>

theorem main_branch_comment_has_no_date:
  "getCommitSha example_env ''acme'' ''build'' ''main''
     = (Inr sha_d, [HttpGet ''https://api.github.com/repos/acme/build/git/ref/heads/main'']) \<and>
   process_line example_env ''ci.yml'' example_world ''    uses: acme/build@main'' =
     (Continue,
      example_world
        \<lparr>config := \<lparr>AllowedOrgs = [''actions''],
                     AcceptedMapping = Some [''acme/build@main'' \<mapsto> sha_d]\<rparr>,
         asked := 1,
         out := [Separator,
                 HttpGet ''https://api.github.com/repos/acme/build/git/ref/heads/main'',
                 Prompt ''ci.yml'' ''    uses: acme/build@main''
                   ''https://github.com/acme/build/releases/tag/main''
                   (''uses: acme/build@'' @ sha_d @ '' #main'')]\<rparr>,
      ''    uses: acme/build@'' @ sha_d @ '' #main'', True) \<and>
   versionTag example_env ''main'' = ''#main'' \<and>
   versionTag example_env ''master'' = ''#master-2025-01-01'' \<and>
   versionTag example_env ''v2'' = ''#v2''"
  by (simp add: model_eval example_eval)

subsection \<open>findLatestVersionTag and getCommitSha\<close>

lemma HasPrefix_iff: "HasPrefix s p \<longleftrightarrow> (\<exists>rest. s = p @ rest)"
  by (induction s p rule: HasPrefix.induct) auto

lemma version_less_iff:
  "version_less a b \<longleftrightarrow>
     lex_gt (component (TrimPrefix a ''v'')) (component (TrimPrefix b ''v''))"
proof -
  have "compareVersions (TrimPrefix a ''v'') (TrimPrefix b ''v'') > 0 \<longleftrightarrow>
        compareVersions (TrimPrefix a ''v'') (TrimPrefix b ''v'') = 1"
    using compareVersions_range[of "TrimPrefix a ''v''" "TrimPrefix b ''v''"] by auto
  then show ?thesis by (simp add: version_less_def compareVersions_gt)
qed

lemma version_less_irrefl: "\<not> version_less a a"
  unfolding version_less_iff by (simp add: lex_gt_def)

lemma version_less_asym: "version_less a b \<Longrightarrow> \<not> version_less b a"
  unfolding version_less_iff by (rule lex_gt_asym)

lemma version_less_trans: "version_less a b \<Longrightarrow> version_less b c \<Longrightarrow> version_less a c"
  unfolding version_less_iff by (rule lex_gt_trans)

lemma mset_insert_sorted: "mset (insert_sorted lt x ys) = add_mset x (mset ys)"
proof -
  have "mset (takeWhile (\<lambda>y. \<not> lt x y) ys @ dropWhile (\<lambda>y. \<not> lt x y) ys) = mset ys"
    by simp
  then show ?thesis unfolding insert_sorted_def by (simp del: takeWhile_dropWhile_id)
qed

lemma mset_insertion_sort: "mset (insertion_sort lt xs) = mset xs"
  unfolding insertion_sort_def by (induction xs) (simp_all add: mset_insert_sorted)

lemma sorted_insert_sorted:
  assumes asym: "\<And>a b. lt a b \<Longrightarrow> \<not> lt b a"
    and trans: "\<And>a b c. lt a b \<Longrightarrow> lt b c \<Longrightarrow> lt a c"
    and s: "sorted_wrt (\<lambda>a b. \<not> lt b a) ys"
  shows "sorted_wrt (\<lambda>a b. \<not> lt b a) (insert_sorted lt x ys)"
  using s
proof (induction ys)
  case Nil
  then show ?case by (simp add: insert_sorted_def)
next
  case (Cons y ys)
  have ih: "sorted_wrt (\<lambda>a b. \<not> lt b a) (insert_sorted lt x ys)"
    using Cons by simp
  have tail: "\<forall>b\<in>set ys. \<not> lt b y" using Cons.prems by simp
  show ?case
  proof (cases "lt x y")
    case True
    have "\<forall>b\<in>set (y # ys). \<not> lt b x"
    proof
      fix b assume b: "b \<in> set (y # ys)"
      show "\<not> lt b x"
      proof
        assume "lt b x"
        then have "lt b y" using True trans by blast
        moreover have "b = y \<or> b \<in> set ys" using b by simp
        ultimately show False using tail asym by blast
      qed
    qed
    then show ?thesis using True Cons.prems by (simp add: insert_sorted_def)
  next
    case False
    have set_ins: "set (insert_sorted lt x ys) = insert x (set ys)"
      using mset_insert_sorted[of lt x ys] by (metis set_mset_add_mset_insert set_mset_mset)
    have "insert_sorted lt x (y # ys) = y # insert_sorted lt x ys"
      using False by (simp add: insert_sorted_def)
    moreover have "\<forall>b\<in>set (insert_sorted lt x ys). \<not> lt b y"
      using set_ins False tail by auto
    ultimately show ?thesis using ih by simp
  qed
qed

lemma insertion_sort_sorts:
  assumes asym: "\<And>a b. lt a b \<Longrightarrow> \<not> lt b a"
    and trans: "\<And>a b c. lt a b \<Longrightarrow> lt b c \<Longrightarrow> lt a c"
  shows "sorts_by insertion_sort lt"
proof -
  have "sorted_wrt (\<lambda>a b. \<not> lt b a) (insertion_sort lt xs)" for xs
  proof (induction xs)
    case Nil
    then show ?case by (simp add: insertion_sort_def)
  next
    case (Cons x xs)
    have "sorted_wrt (\<lambda>a b. \<not> lt b a) (insert_sorted lt x (insertion_sort lt xs))"
    proof (rule sorted_insert_sorted)
      show "\<And>a b. lt a b \<Longrightarrow> \<not> lt b a" by (rule asym)
      show "\<And>a b c. lt a b \<Longrightarrow> lt b c \<Longrightarrow> lt a c" by (rule trans)
      show "sorted_wrt (\<lambda>a b. \<not> lt b a) (insertion_sort lt xs)" by (rule Cons)
    qed
    then show ?case by (simp add: insertion_sort_def)
  qed
  then show ?thesis by (simp add: sorts_by_def mset_insertion_sort)
qed

lemma insertion_sort_version_less: "sorts_by insertion_sort version_less"
  by (rule insertion_sort_sorts) (auto dest: version_less_asym version_less_trans)

lemma sorted_head_maximal:
  assumes "sorts_by srt version_less" and "xs \<noteq> []"
  shows "\<exists>latestTag rest. srt version_less xs = latestTag # rest \<and> latestTag \<in> set xs \<and>
           (\<forall>other\<in>set xs. \<not> version_less other latestTag)"
proof -
  have m: "mset (srt version_less xs) = mset xs"
    and s: "sorted_wrt (\<lambda>a b. \<not> version_less b a) (srt version_less xs)"
    using assms(1) by (auto simp: sorts_by_def)
  have st: "set (srt version_less xs) = set xs" using m by (metis set_mset_mset)
  have "srt version_less xs \<noteq> []" using m assms(2) by (metis mset_zero_iff)
  then obtain latestTag rest where c: "srt version_less xs = latestTag # rest"
    by (cases "srt version_less xs") auto
  have "latestTag \<in> set xs" using st c by auto
  moreover have "\<forall>other\<in>set xs. \<not> version_less other latestTag"
  proof
    fix other assume "other \<in> set xs"
    then have "other = latestTag \<or> other \<in> set rest" using st c by auto
    then show "\<not> version_less other latestTag"
      using s c version_less_irrefl by auto
  qed
  ultimately show ?thesis using c by blast
qed

lemma findLatestVersionTag_found:
  assumes get: "http_Get e (''https://api.github.com/repos/'' @ owner @ ''/'' @ repo @ ''/tags'')
                  = Response 200 (JsonTags tags)"
    and srt: "sorts_by (sort_Slice e) version_less"
    and ne: "filter (\<lambda>name. HasPrefix name prefix) (map fst tags) \<noteq> []"
  shows "\<exists>name sha.
           findLatestVersionTag e owner repo prefix
             = (Inr sha, [HttpGet (''https://api.github.com/repos/'' @ owner @ ''/'' @ repo @ ''/tags'')]) \<and>
           map_of tags name = Some sha \<and> HasPrefix name prefix \<and>
           (\<forall>other\<in>fst ` set tags. HasPrefix other prefix \<longrightarrow> \<not> version_less other name)"
proof -
  define filtered where "filtered = filter (\<lambda>name. HasPrefix name prefix) (map fst tags)"
  obtain latestTag rest where
    h: "sort_Slice e version_less filtered = latestTag # rest" "latestTag \<in> set filtered"
       "\<forall>other\<in>set filtered. \<not> version_less other latestTag"
  proof -
    have "filtered \<noteq> []" using ne by (simp add: filtered_def)
    from sorted_head_maximal[OF srt this] show ?thesis using that by blast
  qed
  have in_tags: "latestTag \<in> fst ` set tags" and pre: "HasPrefix latestTag prefix"
    using h(2) by (auto simp: filtered_def)
  then obtain sha where sha: "map_of tags latestTag = Some sha"
    by (metis map_of_eq_None_iff not_Some_eq)
  have "findLatestVersionTag e owner repo prefix
      = (Inr sha, [HttpGet (''https://api.github.com/repos/'' @ owner @ ''/'' @ repo @ ''/tags'')])"
    using get ne h(1) sha
    by (simp add: findLatestVersionTag_def Let_def filtered_def[symmetric])
  moreover have "\<forall>other\<in>fst ` set tags. HasPrefix other prefix \<longrightarrow> \<not> version_less other latestTag"
    using h(3) by (auto simp: filtered_def)
  ultimately show ?thesis using sha pre by blast
qed

lemma findLatestVersionTag_none:
  assumes get: "http_Get e (''https://api.github.com/repos/'' @ owner @ ''/'' @ repo @ ''/tags'')
                  = Response 200 (JsonTags tags)"
    and ne: "filter (\<lambda>name. HasPrefix name prefix) (map fst tags) = []"
  shows "findLatestVersionTag e owner repo prefix
           = (Inl (NoTagsWithPrefix prefix),
              [HttpGet (''https://api.github.com/repos/'' @ owner @ ''/'' @ repo @ ''/tags'')])"
  using get ne by (simp add: findLatestVersionTag_def Let_def)

lemma TrimPrefix_v: "TrimPrefix s ''v'' = spec_strip_v s"
  by (cases s) (auto simp: TrimPrefix_def)

lemma not_version_less_iff:
  "\<not> version_less a b \<longleftrightarrow> compareVersions (spec_strip_v a) (spec_strip_v b) \<le> 0"
  by (auto simp: version_less_def TrimPrefix_v)

text \<open>
  C1. For a ref other than master and main, getCommitSha asks for the list of tags, once.
  When the list arrives and no tag name starts with the ref, the result is the error
  that no tag has this prefix. Otherwise the result is the commit that the list gives
  for a tag whose name starts with the ref and for which no other such tag compares
  greater, the names being compared by compareVersions after a leading v has been taken
  off each (\<open>spec_strip_v\<close>). This holds for every sorting function that does what
  \<open>sort.Slice\<close> promises. For the tags v2.0.0, v2.1.0 and v2.0.9 and the ref v2 the result
  is the commit of v2.1.0. For the tags v3 and v2.5 and the ref v it is the commit of v3:
  without the v the names compare as 3 and 2.5, whereas with it the first parts, v3 and
  v2, would both count as 0 and the part 5 would decide for v2.5.
\<close>

theorem getCommitSha_picks_highest_tag_with_prefix:
  assumes "tag \<noteq> ''master''" and "tag \<noteq> ''main''"
    and "http_Get e (''https://api.github.com/repos/'' @ owner @ ''/'' @ repo @ ''/tags'')
           = Response 200 (JsonTags tags)"
    and "sorts_by (sort_Slice e) version_less"
  shows
    "snd (getCommitSha e owner repo tag)
       = [HttpGet (''https://api.github.com/repos/'' @ owner @ ''/'' @ repo @ ''/tags'')] \<and>
     ((\<forall>name\<in>fst ` set tags. \<not> (\<exists>rest. name = tag @ rest)) \<longrightarrow>
        fst (getCommitSha e owner repo tag) = Inl (NoTagsWithPrefix tag)) \<and>
     ((\<exists>name\<in>fst ` set tags. \<exists>rest. name = tag @ rest) \<longrightarrow>
        (\<exists>name sha.
           fst (getCommitSha e owner repo tag) = Inr sha \<and>
           map_of tags name = Some sha \<and>
           (\<exists>rest. name = tag @ rest) \<and>
           (\<forall>other\<in>fst ` set tags.
              (\<exists>rest. other = tag @ rest) \<longrightarrow>
              compareVersions (spec_strip_v other) (spec_strip_v name) \<le> 0))) \<and>
     (tags = [(''v2.0.0'', a), (''v2.1.0'', b), (''v2.0.9'', c)] \<and> tag = ''v2'' \<longrightarrow>
        fst (getCommitSha e owner repo tag) = Inr b) \<and>
     (tags = [(''v3'', a), (''v2.5'', b)] \<and> tag = ''v'' \<longrightarrow>
        fst (getCommitSha e owner repo tag) = Inr a)"
proof -
  let ?url = "''https://api.github.com/repos/'' @ owner @ ''/'' @ repo @ ''/tags''"
  let ?filtered = "filter (\<lambda>name. HasPrefix name tag) (map fst tags)"
  have g: "getCommitSha e owner repo tag = findLatestVersionTag e owner repo tag"
    using assms(1,2) by (simp add: getCommitSha_def)
  have empty_iff: "?filtered = [] \<longleftrightarrow> (\<forall>name\<in>fst ` set tags. \<not> (\<exists>rest. name = tag @ rest))"
    by (auto simp: filter_empty_conv HasPrefix_iff)
  have found: "\<exists>name sha.
           fst (getCommitSha e owner repo tag) = Inr sha \<and>
           snd (getCommitSha e owner repo tag) = [HttpGet ?url] \<and>
           map_of tags name = Some sha \<and>
           (\<exists>rest. name = tag @ rest) \<and>
           (\<forall>other\<in>fst ` set tags.
              (\<exists>rest. other = tag @ rest) \<longrightarrow>
              compareVersions (spec_strip_v other) (spec_strip_v name) \<le> 0)"
    if ne: "?filtered \<noteq> []"
  proof -
    obtain name sha where
      h: "findLatestVersionTag e owner repo tag = (Inr sha, [HttpGet ?url])"
         "map_of tags name = Some sha" "HasPrefix name tag"
         "\<forall>other\<in>fst ` set tags. HasPrefix other tag \<longrightarrow> \<not> version_less other name"
      using findLatestVersionTag_found[OF assms(3,4) ne] by blast
    show ?thesis
      using h unfolding g HasPrefix_iff not_version_less_iff
      by (intro exI[of _ name] exI[of _ sha]) simp
  qed
  have requests: "snd (getCommitSha e owner repo tag) = [HttpGet ?url]"
  proof (cases "?filtered = []")
    case True
    then show ?thesis using findLatestVersionTag_none[OF assms(3) True] g by simp
  next
    case False
    then show ?thesis using found by blast
  qed
  have none: "fst (getCommitSha e owner repo tag) = Inl (NoTagsWithPrefix tag)"
    if "\<forall>name\<in>fst ` set tags. \<not> (\<exists>rest. name = tag @ rest)"
    using findLatestVersionTag_none[OF assms(3)] that empty_iff g by simp
  have example: "fst (getCommitSha e owner repo tag) = Inr b"
    if ex: "tags = [(''v2.0.0'', a), (''v2.1.0'', b), (''v2.0.9'', c)] \<and> tag = ''v2''"
  proof -
    have "?filtered \<noteq> []" using ex by simp
    from found[OF this] obtain name sha where
      h: "fst (getCommitSha e owner repo tag) = Inr sha" "map_of tags name = Some sha"
         "\<forall>other\<in>fst ` set tags.
              (\<exists>rest. other = tag @ rest) \<longrightarrow>
              compareVersions (spec_strip_v other) (spec_strip_v name) \<le> 0"
      by blast
    have "name \<in> {''v2.0.0'', ''v2.1.0'', ''v2.0.9''}"
      using h(2) ex by (auto split: if_splits)
    moreover have "compareVersions (spec_strip_v ''v2.1.0'') (spec_strip_v name) \<le> 0"
    proof -
      have "''v2.1.0'' \<in> fst ` set tags" using ex by simp
      moreover have "\<exists>rest. ''v2.1.0'' = tag @ rest" using ex by simp
      ultimately show ?thesis using h(3) by blast
    qed
    moreover have "compareVersions (spec_strip_v ''v2.1.0'') (spec_strip_v ''v2.0.0'') = 1"
      "compareVersions (spec_strip_v ''v2.1.0'') (spec_strip_v ''v2.0.9'') = 1"
      by (simp_all add: compareVersions_eval)
    ultimately have "name = ''v2.1.0''" by auto
    then show ?thesis using h(1,2) ex by simp
  qed
  have stripped: "fst (getCommitSha e owner repo tag) = Inr a"
    if ex: "tags = [(''v3'', a), (''v2.5'', b)] \<and> tag = ''v''"
  proof -
    have "?filtered \<noteq> []" using ex by simp
    from found[OF this] obtain name sha where
      h: "fst (getCommitSha e owner repo tag) = Inr sha" "map_of tags name = Some sha"
         "\<forall>other\<in>fst ` set tags.
              (\<exists>rest. other = tag @ rest) \<longrightarrow>
              compareVersions (spec_strip_v other) (spec_strip_v name) \<le> 0"
      by blast
    have "name \<in> {''v3'', ''v2.5''}"
      using h(2) ex by (auto split: if_splits)
    moreover have "compareVersions (spec_strip_v ''v3'') (spec_strip_v name) \<le> 0"
    proof -
      have "''v3'' \<in> fst ` set tags" using ex by simp
      moreover have "\<exists>rest. ''v3'' = tag @ rest" using ex by simp
      ultimately show ?thesis using h(3) by blast
    qed
    moreover have "compareVersions (spec_strip_v ''v3'') (spec_strip_v ''v2.5'') = 1"
      by (simp add: compareVersions_eval)
    ultimately have "name = ''v3''" by auto
    then show ?thesis using h(1,2) ex by simp
  qed
  show ?thesis
    using requests none found empty_iff example stripped by blast
qed

theorem getCommitSha_picks_highest_tag_with_prefix_witness:
  "fst (getCommitSha example_env ''acme'' ''build'' ''v2'') = Inr sha_b \<and>
   fst (getCommitSha example_env ''acme'' ''build'' ''v9'') = Inl (NoTagsWithPrefix ''v9'') \<and>
   snd (getCommitSha example_env ''acme'' ''build'' ''v2'')
     = [HttpGet ''https://api.github.com/repos/acme/build/tags''] \<and>
   fst (getCommitSha example_env ''acme'' ''deploy'' ''v'') = Inr sha_a \<and>
   compareVersions ''3'' ''2.5'' = 1 \<and> compareVersions ''v3'' ''v2.5'' = - 1"
proof -
  have get: "http_Get example_env (''https://api.github.com/repos/'' @ ''acme'' @ ''/'' @ ''build'' @ ''/tags'')
      = Response 200 (JsonTags [(''v2.0.0'', sha_a), (''v2.1.0'', sha_b), (''v2.0.9'', sha_c)])"
    by (simp add: example_env_def example_remote_def)
  have get2: "http_Get example_env (''https://api.github.com/repos/'' @ ''acme'' @ ''/'' @ ''deploy'' @ ''/tags'')
      = Response 200 (JsonTags [(''v3'', sha_a), (''v2.5'', sha_c)])"
    by (simp add: example_env_def example_remote_def)
  have srt: "sorts_by (sort_Slice example_env) version_less"
    using insertion_sort_version_less by (simp add: example_env_def)
  have n2: "''v2'' \<noteq> ''master''" "''v2'' \<noteq> ''main''" and n9: "''v9'' \<noteq> ''master''" "''v9'' \<noteq> ''main''"
    and nv: "''v'' \<noteq> ''master''" "''v'' \<noteq> ''main''"
    by simp_all
  have none9: "\<forall>name\<in>fst ` set [(''v2.0.0'', sha_a), (''v2.1.0'', sha_b), (''v2.0.9'', sha_c)].
      \<not> (\<exists>rest. name = ''v9'' @ rest)"
    by simp
  have "fst (getCommitSha example_env ''acme'' ''build'' ''v2'') = Inr sha_b"
    using getCommitSha_picks_highest_tag_with_prefix[OF n2 get srt, of sha_a sha_b sha_c] by blast
  moreover have "fst (getCommitSha example_env ''acme'' ''build'' ''v9'') = Inl (NoTagsWithPrefix ''v9'')"
    using getCommitSha_picks_highest_tag_with_prefix[OF n9 get srt] none9 by blast
  moreover have "snd (getCommitSha example_env ''acme'' ''build'' ''v2'')
     = [HttpGet ''https://api.github.com/repos/acme/build/tags'']"
    using getCommitSha_picks_highest_tag_with_prefix[OF n2 get srt] by simp
  moreover have "fst (getCommitSha example_env ''acme'' ''deploy'' ''v'') = Inr sha_a"
    using getCommitSha_picks_highest_tag_with_prefix[OF nv get2 srt, where a = sha_a and b = sha_c] by blast
  moreover have "compareVersions ''3'' ''2.5'' = 1" "compareVersions ''v3'' ''v2.5'' = - 1"
    by (simp_all add: compareVersions_eval)
  ultimately show ?thesis by blast
qed

lemmas nested_eval =
  getCommitSha_nested_def resolveTag_def get_object_def tag_url_def chain_env_def
  chain_remote_def example_env_def sha_a_def sha_b_def sha_c_def getCommitSha_def

text \<open>
  C2 at the chain of the specification. The first revision follows the chain but returns
  the identifier of the second tag object, not of the commit: after replacing the
  identifier by the target \<open>sha_b\<close> it asks for the tag object \<open>sha_b\<close> and leaves the loop
  because the type of the target of \<open>sha_b\<close> is not tag (line 156), without taking that
  target. It prints one note. The second revision returns the identifier of the first
  tag object and prints no note.
\<close>

theorem nested_tag_chain_stops_one_tag_early:
  "getCommitSha_nested chain_env ''acme'' ''build'' ''master'' =
     Some (Inr sha_b,
           [HttpGet ''https://api.github.com/repos/acme/build/git/ref/heads/master'',
            HttpGet (''https://api.github.com/repos/acme/build/git/tags/'' @ sha_a),
            HttpGet (''https://api.github.com/repos/acme/build/git/tags/'' @ sha_b),
            Note ''acme'' ''build'' ''master'' sha_b
              ''https://api.github.com/repos/acme/build/git/ref/heads/master'']) \<and>
   getCommitSha chain_env ''acme'' ''build'' ''master'' =
     (Inr sha_a, [HttpGet ''https://api.github.com/repos/acme/build/git/ref/heads/master''])"
  by (simp add: nested_eval getCommitSha_loop.simps Let_def)

subsection \<open>Two runs in a row\<close>

lemma getCommitSha_same_remote:
  assumes "http_Get e2 = http_Get e1" and "sort_Slice e2 = sort_Slice e1"
  shows "getCommitSha e2 owner repo tag = getCommitSha e1 owner repo tag"
  unfolding getCommitSha_def findLatestVersionTag_def get_object_def assms by (rule refl)

lemma settled_same_remote:
  assumes "http_Get e2 = http_Get e1" and "sort_Slice e2 = sort_Slice e1"
    and "EqualFold e2 = EqualFold e1"
  shows "settled e2 c line = settled e1 c line"
  unfolding settled_def isAllowedOrg_def getCommitSha_same_remote[OF assms(1,2)] assms(3)
  by (rule refl)

lemma get_object_reqs: "snd (get_object e url) = [HttpGet url]"
  by (simp add: get_object_def split: reply.splits option.splits)

lemma findLatestVersionTag_reqs:
  "snd (findLatestVersionTag e owner repo prefix)
     = [HttpGet (''https://api.github.com/repos/'' @ owner @ ''/'' @ repo @ ''/tags'')]"
  by (simp add: findLatestVersionTag_def Let_def split: reply.splits option.splits list.splits)

lemma getCommitSha_reqs: "\<forall>ev\<in>set (snd (getCommitSha e owner repo tag)). \<not> is_prompt ev"
proof (cases "tag \<noteq> ''master'' \<and> tag \<noteq> ''main''")
  case True
  then show ?thesis using findLatestVersionTag_reqs by (simp add: getCommitSha_def)
next
  case False
  define url where "url = (if tag = ''master''
                then ''https://api.github.com/repos/'' @ owner @ ''/'' @ repo @
                     ''/git/ref/heads/master''
                else ''https://api.github.com/repos/'' @ owner @ ''/'' @ repo @
                     ''/git/ref/heads/main'')"
  have "snd (getCommitSha e owner repo tag) = snd (get_object e url)"
    using False unfolding getCommitSha_def Let_def url_def[symmetric]
    by (cases "get_object e url") (auto split: sum.splits)
  then show ?thesis by (simp add: get_object_reqs)
qed

lemma split_at_first:
  assumes "xs @ c # ys = xs' @ c # ys'" and "c \<notin> set xs" and "c \<notin> set xs'"
  shows "xs = xs' \<and> ys = ys'"
proof -
  have "takeWhile (\<lambda>x. x \<noteq> c) (xs @ c # ys) = xs"
    using assms(2) by (intro takeWhile_stop) auto
  moreover have "takeWhile (\<lambda>x. x \<noteq> c) (xs' @ c # ys') = xs'"
    using assms(3) by (intro takeWhile_stop) auto
  ultimately have "xs = xs'" using assms(1) by simp
  then show ?thesis using assms(1) by simp
qed

lemma key_of_inject:
  assumes "key_of owner repo tag = key_of owner' repo' tag'"
    and "CHR ''/'' \<notin> set owner" "CHR ''/'' \<notin> set owner'"
    and "CHR ''@'' \<notin> set repo" "CHR ''@'' \<notin> set repo'"
  shows "owner = owner' \<and> repo = repo' \<and> tag = tag'"
proof -
  have "owner @ CHR ''/'' # (repo @ CHR ''@'' # tag) = owner' @ CHR ''/'' # (repo' @ CHR ''@'' # tag')"
    using assms(1) by (simp add: key_of_def)
  from split_at_first[OF this assms(2,3)]
  have o: "owner = owner'" and r: "repo @ CHR ''@'' # tag = repo' @ CHR ''@'' # tag'"
    by auto
  from split_at_first[OF r assms(4,5)] o show ?thesis by simp
qed

lemma config_ext_refl [simp]: "config_ext e c c"
  by (simp add: config_ext_def)

lemma config_ext_trans:
  assumes "config_ext e a b" and "config_ext e b c"
  shows "config_ext e a c"
proof -
  have "accepted a \<subseteq>\<^sub>m accepted c"
    using assms by (auto simp: config_ext_def intro: map_le_trans)
  moreover have "AllowedOrgs c = AllowedOrgs a" using assms by (simp add: config_ext_def)
  moreover have "\<forall>k\<in>dom (accepted c) - dom (accepted a).
          \<exists>line owner repo tag sha reqs.
            usageRegex line = Some (owner, repo, tag) \<and> k = key_of owner repo tag \<and>
            getCommitSha e owner repo tag = (Inr sha, reqs)"
  proof
    fix k assume k: "k \<in> dom (accepted c) - dom (accepted a)"
    show "\<exists>line owner repo tag sha reqs.
            usageRegex line = Some (owner, repo, tag) \<and> k = key_of owner repo tag \<and>
            getCommitSha e owner repo tag = (Inr sha, reqs)"
    proof (cases "k \<in> dom (accepted b)")
      case True
      then show ?thesis using k assms(1) unfolding config_ext_def by blast
    next
      case False
      then show ?thesis using k assms(2) unfolding config_ext_def by blast
    qed
  qed
  ultimately show ?thesis by (simp add: config_ext_def)
qed

lemma settled_ext:
  assumes s: "settled e c line" and x: "config_ext e c c'"
  shows "settled e c' line"
proof (cases "usageRegex line")
  case None
  then show ?thesis by (simp add: settled_def)
next
  case (Some g)
  obtain owner repo tag where g: "g = (owner, repo, tag)" by (cases g) auto
  note m = Some[unfolded g]
  note grp = usageRegex_groups[OF m]
  have same: "isAllowedOrg e c' owner = isAllowedOrg e c owner"
    using x by (simp add: config_ext_def isAllowedOrg_def)
  show ?thesis
  proof (cases "isAllowedOrg e c owner \<or> is_commit_hash tag")
    case True
    then show ?thesis using m same by (auto simp: settled_def)
  next
    case False
    then have f: "accepted c (key_of owner repo tag) = None"
      "\<exists>err reqs. getCommitSha e owner repo tag = (Inl err, reqs)"
      using s m by (auto simp: settled_def)
    have "accepted c' (key_of owner repo tag) = None"
    proof (rule ccontr)
      assume "accepted c' (key_of owner repo tag) \<noteq> None"
      then have "key_of owner repo tag \<in> dom (accepted c') - dom (accepted c)"
        using f(1) by auto
      then obtain line2 owner2 repo2 tag2 sha reqs where
        h: "usageRegex line2 = Some (owner2, repo2, tag2)"
           "key_of owner repo tag = key_of owner2 repo2 tag2"
           "getCommitSha e owner2 repo2 tag2 = (Inr sha, reqs)"
        using x unfolding config_ext_def by blast
      note grp2 = usageRegex_groups[OF h(1)]
      have "owner = owner2 \<and> repo = repo2 \<and> tag = tag2"
        by (rule key_of_inject[OF h(2) grp(2) grp2(2) grp(4) grp2(4)])
      then show False using h(3) f(2) by auto
    qed
    then show ?thesis using m f(2) by (auto simp: settled_def)
  qed
qed

lemma quiet_refl [simp]: "quiet w w"
  by (simp add: quiet_def)

lemma quiet_trans: "quiet a b \<Longrightarrow> quiet b c \<Longrightarrow> quiet a c"
  by (simp add: quiet_def)

lemma quiet_emit: "\<forall>ev\<in>set es. \<not> is_prompt ev \<Longrightarrow> quiet w (emit es w)"
  by (simp add: quiet_def filter_empty_conv[THEN iffD2])

lemma settled_quiet:
  assumes "settled e (config w) line"
  shows "\<exists>w'. process_line e filePath w line = (Continue, w', line, False) \<and> quiet w w'"
proof (cases "usageRegex line")
  case None
  then show ?thesis by (simp add: process_line_no_match)
next
  case (Some g)
  obtain owner repo tag where g: "g = (owner, repo, tag)" by (cases g) auto
  note m = Some[unfolded g]
  show ?thesis
  proof (cases "isAllowedOrg e (config w) owner \<or> is_commit_hash tag")
    case True
    then show ?thesis using process_line_skip[OF m] by simp
  next
    case False
    then obtain err reqs where
      f: "accepted (config w) (key_of owner repo tag) = None"
         "getCommitSha e owner repo tag = (Inl err, reqs)"
      using assms m by (auto simp: settled_def)
    have pl: "process_line e filePath w line =
       (Continue, emit ([Separator] @ reqs @ [ResolveFailed (key_of owner repo tag) err]) w,
        line, False)"
      using m False f by (simp add: process_line_def key_of_def)
    have "\<forall>ev\<in>set reqs. \<not> is_prompt ev"
      using getCommitSha_reqs[of e owner repo tag] f(2) by simp
    then have "quiet w (emit ([Separator] @ reqs @ [ResolveFailed (key_of owner repo tag) err]) w)"
      by (intro quiet_emit) auto
    then show ?thesis using pl by blast
  qed
qed

lemma Split_no_sep: "\<forall>p\<in>set (Split sep s). sep \<notin> set p"
proof (induction s)
  case Nil
  then show ?case by simp
next
  case (Cons c s)
  obtain p ps where sp: "Split sep s = p # ps"
    using Split_nonempty[of sep s] by (cases "Split sep s") auto
  show ?case using Cons sp by auto
qed

lemma Split_Join:
  assumes "ps \<noteq> []" and "\<forall>p\<in>set ps. sep \<notin> set p"
  shows "Split sep (Join sep ps) = ps"
  using assms
proof (induction ps rule: Join.induct)
  case (1 sep)
  then show ?case by simp
next
  case (2 sep p)
  then have "sep \<notin> set p" by simp
  then have "Split sep p = [p]"
    by (induction p) auto
  then show ?case by simp
next
  case (3 sep p q ps)
  then have ih: "Split sep (Join sep (q # ps)) = q # ps" by simp
  have "sep \<notin> set p" using 3 by simp
  then have "Split sep (p @ sep # Join sep (q # ps)) = p # Split sep (Join sep (q # ps))"
    by (induction p) (auto simp: ih)
  then show ?case using ih by simp
qed

lemma match_usage_subset:
  assumes "match_usage rest = Some (owner, repo, tag)"
  shows "set owner \<subseteq> set rest" "set repo \<subseteq> set rest" "set tag \<subseteq> set rest"
proof -
  define pre where "pre = takeWhile (\<lambda>c. c \<noteq> CHR ''/'') rest"
  define from_slash where "from_slash = dropWhile (\<lambda>c. c \<noteq> CHR ''/'') rest"
  define from_at where "from_at = dropWhile (\<lambda>c. c \<noteq> CHR ''@'') (tl from_slash)"
  have m: "pre \<noteq> []" "from_slash \<noteq> []" "from_at \<noteq> []"
    "repo = takeWhile (\<lambda>c. c \<noteq> CHR ''@'') (tl from_slash)"
    "tag = takeWhile (\<lambda>c. \<not> re_space c) (tl from_at)"
    "owner = (if dropWhile re_space pre = [] then [last pre] else dropWhile re_space pre)"
    using assms
    unfolding match_usage_def pre_def from_slash_def from_at_def
    by (auto simp: Let_def split: if_splits)
  have a: "set pre \<subseteq> set rest" unfolding pre_def by (auto dest: set_takeWhileD)
  have tl_sub: "\<And>xs :: string. set (tl xs) \<subseteq> set xs"
    by (metis list.set_sel(2) subsetI tl_Nil)
  have b: "set (tl from_slash) \<subseteq> set rest"
  proof -
    have "set from_slash \<subseteq> set rest"
      unfolding from_slash_def by (auto dest: set_dropWhileD)
    then show ?thesis using tl_sub[of from_slash] by blast
  qed
  have c: "set (tl from_at) \<subseteq> set rest"
  proof -
    have "set from_at \<subseteq> set (tl from_slash)"
      unfolding from_at_def by (auto dest: set_dropWhileD)
    then show ?thesis using tl_sub[of from_at] b by blast
  qed
  have "set owner \<subseteq> set pre"
    using m(1,6) set_dropWhileD[of _ re_space pre] by (auto split: if_splits)
  then show "set owner \<subseteq> set rest" using a by blast
  show "set repo \<subseteq> set rest" using b unfolding m(4) by (auto dest: set_takeWhileD)
  show "set tag \<subseteq> set rest" using c unfolding m(5) by (auto dest: set_takeWhileD)
qed

lemma usageRegex_subset:
  assumes "usageRegex line = Some (owner, repo, tag)"
  shows "set owner \<subseteq> set line" "set repo \<subseteq> set line" "set tag \<subseteq> set line"
proof -
  have "\<exists>rest. match_usage rest = Some (owner, repo, tag) \<and> set rest \<subseteq> set line"
    using assms
  proof (induction line rule: usageRegex.induct)
    case 1
    then show ?case by simp
  next
    case (2 c cs)
    show ?case
    proof (cases "HasPrefix (c # cs) ''uses:'' \<and> match_usage (drop 5 (c # cs)) \<noteq> None")
      case True
      then have "match_usage (drop 5 (c # cs)) = Some (owner, repo, tag)"
        using "2.prems" by (auto split: option.splits)
      moreover have "set (drop 5 (c # cs)) \<subseteq> set (c # cs)" by (rule set_drop_subset)
      ultimately show ?thesis by blast
    next
      case False
      then have "usageRegex cs = Some (owner, repo, tag)"
        using "2.prems" by (auto split: option.splits if_splits)
      then obtain rest where "match_usage rest = Some (owner, repo, tag)" "set rest \<subseteq> set cs"
        using 2 False by (auto split: option.splits if_splits)
      then show ?thesis by auto
    qed
  qed
  then obtain rest where r: "match_usage rest = Some (owner, repo, tag)" "set rest \<subseteq> set line"
    by blast
  from match_usage_subset[OF r(1)] r(2)
  show "set owner \<subseteq> set line" "set repo \<subseteq> set line" "set tag \<subseteq> set line"
    by auto
qed

lemma rewritten_no_newline:
  assumes m: "usageRegex line = Some (owner, repo, tag)"
    and l: "CHR 0x0A \<notin> set line" and h: "is_commit_hash commitSha"
    and d: "CHR 0x0A \<notin> set (today e)"
  shows "CHR 0x0A \<notin> set (leadingWhitespace line @ newUsage e owner repo commitSha tag)"
proof -
  note sub = usageRegex_subset[OF m]
  have ws: "CHR 0x0A \<notin> set (leadingWhitespace line)"
    unfolding leadingWhitespace_def using l by (auto dest: set_takeWhileD)
  have sha: "CHR 0x0A \<notin> set commitSha"
    using is_commit_hash_no_space[OF h] by (auto simp: re_space_def)
  have vt: "CHR 0x0A \<notin> set (versionTag e tag)"
    using d l sub(3) by (auto simp: versionTag_def)
  show ?thesis
    using ws sha vt l sub by (auto simp: newUsage_def)
qed

lemma first_run_line:
  assumes yes: "\<forall>n. answers e n = ''y''"
    and hex: "\<forall>owner repo tag sha reqs.
                getCommitSha e owner repo tag = (Inr sha, reqs) \<longrightarrow> is_commit_hash sha"
    and date: "CHR 0x0A \<notin> set (today e)"
    and cache: "\<forall>sha\<in>ran (accepted (config w)). is_commit_hash sha"
    and nn: "AcceptedMapping (config w) \<noteq> None"
    and nl: "CHR 0x0A \<notin> set line"
    and step: "process_line e filePath w line = (oc, w', line', changed)"
  shows "oc = Continue \<and> config_ext e (config w) (config w') \<and>
         (\<forall>sha\<in>ran (accepted (config w')). is_commit_hash sha) \<and>
         AcceptedMapping (config w') \<noteq> None \<and> persisted w' = persisted w \<and>
         settled e (config w') line' \<and> CHR 0x0A \<notin> set line'"
  using step
proof (cases rule: process_line_cases)
  case skip
  then show ?thesis using cache nn nl by (auto simp: settled_def)
next
  case (cached owner repo tag commitSha)
  have h: "is_commit_hash commitSha"
    using cache cached(4) by (auto simp: ran_def)
  obtain owner' where "usageRegex line' = Some (owner', repo, commitSha)"
    using rewritten_line_skipped(1)[OF cached(1) h, of e] cached(8) by auto
  then have "settled e (config w') line'" using h by (simp add: settled_def)
  moreover have "CHR 0x0A \<notin> set line'"
    unfolding cached(8) by (rule rewritten_no_newline[OF cached(1) nl h date])
  ultimately show ?thesis using cached cache nn by simp
next
  case (failed owner repo tag err reqs)
  then show ?thesis using cache nn nl by (auto simp: settled_def)
next
  case (yes owner repo tag commitSha reqs w1 m)
  have h: "is_commit_hash commitSha" using hex yes(5) by blast
  obtain owner' where "usageRegex line' = Some (owner', repo, commitSha)"
    using rewritten_line_skipped(1)[OF yes(1) h, of e] yes(11) by auto
  then have s: "settled e (config w') line'" using h by (simp add: settled_def)
  have n: "CHR 0x0A \<notin> set line'"
    unfolding yes(11) by (rule rewritten_no_newline[OF yes(1) nl h date])
  have cfg: "AllowedOrgs (config w') = AllowedOrgs (config w)"
    "accepted (config w') = (accepted (config w))(key_of owner repo tag \<mapsto> commitSha)"
    using yes(6,10) accepted_Some[OF yes(12)] by simp_all
  have nn': "AcceptedMapping (config w') \<noteq> None" "persisted w' = persisted w"
    using yes(6,10) by simp_all
  have x: "config_ext e (config w) (config w')"
    unfolding config_ext_def cfg using yes(1,4,5) by (auto simp: map_le_def)
  have r: "\<forall>sha\<in>ran (accepted (config w')). is_commit_hash sha"
    unfolding cfg using cache h yes(4) by (auto simp: ran_def)
  show ?thesis using yes(8) x r s n nn' by simp
next
  case (panic owner repo tag commitSha reqs)
  then show ?thesis using nn by simp
next
  case (no owner repo tag commitSha reqs)
  then show ?thesis using yes by simp
next
  case (allow owner repo tag commitSha reqs w1)
  then show ?thesis using yes by simp
next
  case (quit owner repo tag commitSha reqs w1)
  then show ?thesis using yes by simp
next
  case (invalid owner repo tag commitSha reqs)
  then show ?thesis using yes by simp
qed

lemma first_run_lines:
  assumes yes: "\<forall>n. answers e n = ''y''"
    and hex: "\<forall>owner repo tag sha reqs.
                getCommitSha e owner repo tag = (Inr sha, reqs) \<longrightarrow> is_commit_hash sha"
    and date: "CHR 0x0A \<notin> set (today e)"
    and cache: "\<forall>sha\<in>ran (accepted (config w)). is_commit_hash sha"
    and nn: "AcceptedMapping (config w) \<noteq> None"
    and nl: "\<forall>line\<in>set ls. CHR 0x0A \<notin> set line"
    and run: "process_lines e filePath w ls = (oc, w', ls', changed)"
  shows "oc = Continue \<and> config_ext e (config w) (config w') \<and>
         (\<forall>sha\<in>ran (accepted (config w')). is_commit_hash sha) \<and>
         AcceptedMapping (config w') \<noteq> None \<and> persisted w' = persisted w \<and>
         (\<forall>line'\<in>set ls'. settled e (config w') line' \<and> CHR 0x0A \<notin> set line')"
  using cache nn nl run
proof (induction ls arbitrary: w oc w' ls' changed)
  case Nil
  then show ?case by simp
next
  case (Cons l ls)
  obtain oc1 w1 l1 ch1 where s: "process_line e filePath w l = (oc1, w1, l1, ch1)"
    by (cases "process_line e filePath w l") auto
  have nl1: "CHR 0x0A \<notin> set l" using Cons.prems(3) by simp
  note f = first_run_line[OF yes hex date Cons.prems(1) Cons.prems(2) nl1 s]
  obtain oc2 w2 ls2 ch2 where t: "process_lines e filePath w1 ls = (oc2, w2, ls2, ch2)"
    by (cases "process_lines e filePath w1 ls") auto
  have r: "oc = oc2" "w' = w2" "ls' = l1 # ls2"
    using Cons.prems(4) s t f by auto
  have ih: "oc2 = Continue \<and> config_ext e (config w1) (config w2) \<and>
         (\<forall>sha\<in>ran (accepted (config w2)). is_commit_hash sha) \<and>
         AcceptedMapping (config w2) \<noteq> None \<and> persisted w2 = persisted w1 \<and>
         (\<forall>line'\<in>set ls2. settled e (config w2) line' \<and> CHR 0x0A \<notin> set line')"
    using Cons.IH[OF _ _ _ t] f Cons.prems(3) by simp
  have "settled e (config w2) l1" using f ih settled_ext by blast
  moreover have "config_ext e (config w) (config w2)" using f ih config_ext_trans by blast
  ultimately show ?case using r f ih by simp
qed

lemma first_run_file:
  assumes yes: "\<forall>n. answers e n = ''y''"
    and hex: "\<forall>owner repo tag sha reqs.
                getCommitSha e owner repo tag = (Inr sha, reqs) \<longrightarrow> is_commit_hash sha"
    and date: "CHR 0x0A \<notin> set (today e)"
    and cache: "\<forall>sha\<in>ran (accepted (config w)). is_commit_hash sha"
    and nn: "AcceptedMapping (config w) \<noteq> None"
    and wr: "writable e filePath"
    and run: "processFile e w filePath = (oc, w')"
  shows "oc = Continue \<and> config_ext e (config w) (config w') \<and>
         (\<forall>sha\<in>ran (accepted (config w')). is_commit_hash sha) \<and>
         AcceptedMapping (config w') \<noteq> None \<and> persisted w' = persisted w \<and>
         file_settled e (config w') (disk w' filePath) \<and>
         (\<forall>p. p \<noteq> filePath \<longrightarrow> disk w' p = disk w p)"
proof -
  define w0 where "w0 = (if verbose e then emit [Processing filePath] w else w)"
  have c0: "config w0 = config w" and d0: "disk w0 = disk w"
    and p0: "persisted w0 = persisted w" by (simp_all add: w0_def)
  show ?thesis
  proof (cases "disk w filePath")
    case None
    then have "oc = Continue" "w' = emit [FileError filePath] w0"
      using run d0 by (simp_all add: processFile_def Let_def w0_def[symmetric])
    then show ?thesis using None c0 d0 p0 cache nn by (simp add: file_settled_def)
  next
    case (Some inputBytes)
    define ls where "ls = Split (CHR 0x0A) inputBytes"
    obtain oc1 w1 ls1 ch1 where
      pl: "process_lines e filePath w0 ls = (oc1, w1, ls1, ch1)"
      by (cases "process_lines e filePath w0 ls") auto
    have nl: "\<forall>line\<in>set ls. CHR 0x0A \<notin> set line"
      unfolding ls_def by (rule Split_no_sep)
    have cache0: "\<forall>sha\<in>ran (accepted (config w0)). is_commit_hash sha"
      using cache c0 by simp
    have nn0: "AcceptedMapping (config w0) \<noteq> None"
      using nn c0 by simp
    note f = first_run_lines[OF yes hex date cache0 nn0 nl pl]
    note fr = process_lines_frame[OF pl]
    have oc1: "oc1 = Continue" using f by simp
    have d1: "disk w1 = disk w" using fr d0 by simp
    have len: "length ls1 = length ls" using fr by (auto dest: list_all2_lengthD)
    have ne: "ls1 \<noteq> []" using len Split_nonempty[of "CHR 0x0A" inputBytes] ls_def by auto
    show ?thesis
    proof (cases ch1)
      case True
      then have r: "oc = Continue"
        "w' = emit [Updated filePath] (w1\<lparr>disk := (disk w1)(filePath \<mapsto> Join (CHR 0x0A) ls1)\<rparr>)"
        using run Some d0 pl oc1 wr
        by (simp_all add: processFile_def Let_def w0_def[symmetric] ls_def[symmetric])
      have "Split (CHR 0x0A) (Join (CHR 0x0A) ls1) = ls1"
        using ne f by (intro Split_Join) auto
      then have "file_settled e (config w') (disk w' filePath)"
        using r f by (simp add: file_settled_def)
      then show ?thesis using r f c0 d1 p0 by simp
    next
      case False
      then have r: "oc = Continue" "w' = w1"
        using run Some d0 pl oc1
        by (simp_all add: processFile_def Let_def w0_def[symmetric] ls_def[symmetric])
      have "ls1 = ls" using fr False oc1 by simp
      then have "file_settled e (config w') (disk w' filePath)"
        using r f d1 Some by (simp add: file_settled_def ls_def)
      then show ?thesis using r f c0 d1 p0 by simp
    qed
  qed
qed

lemma file_settled_ext:
  "file_settled e c content \<Longrightarrow> config_ext e c c' \<Longrightarrow> file_settled e c' content"
  by (auto simp: file_settled_def settled_ext split: option.splits)

lemma settled_back:
  assumes s: "settled e c' line" and x: "config_ext e c c'"
  shows "settled e c line"
proof (cases "usageRegex line")
  case None
  then show ?thesis by (simp add: settled_def)
next
  case (Some g)
  obtain owner repo tag where g: "g = (owner, repo, tag)" by (cases g) auto
  note m = Some[unfolded g]
  have same: "isAllowedOrg e c' owner = isAllowedOrg e c owner"
    using x by (simp add: config_ext_def isAllowedOrg_def)
  have le: "accepted c \<subseteq>\<^sub>m accepted c'" using x by (simp add: config_ext_def)
  have "accepted c (key_of owner repo tag) = None"
    if "accepted c' (key_of owner repo tag) = None"
  proof (rule ccontr)
    assume "accepted c (key_of owner repo tag) \<noteq> None"
    then have "key_of owner repo tag \<in> dom (accepted c)" by auto
    then have "accepted c' (key_of owner repo tag) = accepted c (key_of owner repo tag)"
      using le by (simp add: map_le_def)
    then show False using that \<open>accepted c (key_of owner repo tag) \<noteq> None\<close> by simp
  qed
  then show ?thesis using s m same by (auto simp: settled_def)
qed

lemma file_settled_back:
  "file_settled e c' content \<Longrightarrow> config_ext e c c' \<Longrightarrow> file_settled e c content"
  by (auto simp: file_settled_def settled_back split: option.splits)

lemma first_run_walk:
  assumes yes: "\<forall>n. answers e n = ''y''"
    and hex: "\<forall>owner repo tag sha reqs.
                getCommitSha e owner repo tag = (Inr sha, reqs) \<longrightarrow> is_commit_hash sha"
    and date: "CHR 0x0A \<notin> set (today e)"
    and cache: "\<forall>sha\<in>ran (accepted (config w)). is_commit_hash sha"
    and nn: "AcceptedMapping (config w) \<noteq> None"
    and wr: "\<forall>p\<in>set paths. writable e p"
    and before: "\<forall>p\<in>P. file_settled e (config w) (disk w p)"
    and run: "walk e w paths = (oc, w')"
  shows "oc = Continue \<and> config_ext e (config w) (config w') \<and>
         persisted w' = persisted w \<and>
         (\<forall>p\<in>P \<union> set paths. file_settled e (config w') (disk w' p))"
  using cache nn wr before run
proof (induction paths arbitrary: w P)
  case Nil
  then show ?case by simp
next
  case (Cons q qs)
  obtain oc1 w1 where s: "processFile e w q = (oc1, w1)"
    by (cases "processFile e w q") auto
  have wq: "writable e q" using Cons.prems(3) by simp
  note f = first_run_file[OF yes hex date Cons.prems(1) Cons.prems(2) wq s]
  have rest: "walk e w1 qs = (oc, w')" using Cons.prems(5) s f by simp
  have inv: "\<forall>p\<in>insert q P. file_settled e (config w1) (disk w1 p)"
  proof
    fix p assume p: "p \<in> insert q P"
    show "file_settled e (config w1) (disk w1 p)"
    proof (cases "p = q")
      case True
      then show ?thesis using f by simp
    next
      case False
      then have "p \<in> P" "disk w1 p = disk w p" using p f by auto
      then show ?thesis using Cons.prems(4) f file_settled_ext by metis
    qed
  qed
  have ih: "oc = Continue \<and> config_ext e (config w1) (config w') \<and>
      persisted w' = persisted w1 \<and>
      (\<forall>p\<in>insert q P \<union> set qs. file_settled e (config w') (disk w' p))"
    using Cons.IH[OF _ _ _ inv rest] f Cons.prems(3) by simp
  have "config_ext e (config w) (config w')" using f ih config_ext_trans by blast
  then show ?case using ih f by simp
qed

lemma settled_lines_quiet:
  assumes "\<forall>line\<in>set ls. settled e (config w) line"
  shows "\<exists>w'. process_lines e filePath w ls = (Continue, w', ls, False) \<and> quiet w w'"
  using assms
proof (induction ls arbitrary: w)
  case Nil
  then show ?case by simp
next
  case (Cons l ls)
  obtain w1 where s: "process_line e filePath w l = (Continue, w1, l, False)" "quiet w w1"
    using settled_quiet[of e w l filePath] Cons.prems by auto
  have "\<forall>line\<in>set ls. settled e (config w1) line"
    using Cons.prems s(2) by (simp add: quiet_def)
  then obtain w2 where t: "process_lines e filePath w1 ls = (Continue, w2, ls, False)" "quiet w1 w2"
    using Cons.IH by blast
  have "process_lines e filePath w (l # ls) = (Continue, w2, l # ls, False)"
    using s(1) t(1) by simp
  then show ?case using quiet_trans[OF s(2) t(2)] by blast
qed

lemma settled_file_quiet:
  assumes "file_settled e (config w) (disk w filePath)"
  shows "\<exists>w'. processFile e w filePath = (Continue, w') \<and> quiet w w'"
proof -
  define w0 where "w0 = (if verbose e then emit [Processing filePath] w else w)"
  have q0: "quiet w w0" by (simp add: w0_def quiet_emit)
  then have c0: "config w0 = config w" and d0: "disk w0 = disk w" by (simp_all add: quiet_def)
  show ?thesis
  proof (cases "disk w filePath")
    case None
    then have "processFile e w filePath = (Continue, emit [FileError filePath] w0)"
      using d0 by (simp add: processFile_def Let_def w0_def[symmetric])
    moreover have "quiet w (emit [FileError filePath] w0)"
      using q0 quiet_emit[of "[FileError filePath]" w0] quiet_trans by fastforce
    ultimately show ?thesis by blast
  next
    case (Some inputBytes)
    then have "\<forall>line\<in>set (Split (CHR 0x0A) inputBytes). settled e (config w0) line"
      using assms c0 by (simp add: file_settled_def)
    then obtain w1 where
      pl: "process_lines e filePath w0 (Split (CHR 0x0A) inputBytes)
             = (Continue, w1, Split (CHR 0x0A) inputBytes, False)" "quiet w0 w1"
      using settled_lines_quiet by blast
    have "processFile e w filePath = (Continue, w1)"
      using Some d0 pl(1) by (simp add: processFile_def Let_def w0_def[symmetric])
    then show ?thesis using quiet_trans[OF q0 pl(2)] by blast
  qed
qed

lemma settled_walk_quiet:
  assumes "\<forall>p\<in>set paths. file_settled e (config w) (disk w p)"
  shows "\<exists>w'. walk e w paths = (Continue, w') \<and> quiet w w'"
  using assms
proof (induction paths arbitrary: w)
  case Nil
  then show ?case by simp
next
  case (Cons q qs)
  obtain w1 where s: "processFile e w q = (Continue, w1)" "quiet w w1"
    using settled_file_quiet[of e w q] Cons.prems by auto
  have "\<forall>p\<in>set qs. file_settled e (config w1) (disk w1 p)"
    using Cons.prems s(2) by (simp add: quiet_def)
  then obtain w2 where t: "walk e w1 qs = (Continue, w2)" "quiet w1 w2"
    using Cons.IH by blast
  have "walk e w (q # qs) = (Continue, w2)" using s(1) t(1) by simp
  then show ?case using quiet_trans[OF s(2) t(2)] by blast
qed

lemma main_after_walk:
  assumes "walk e w paths = (Continue, w1)" and "main e w paths = (code, w2)"
  shows "code = 0" "config w2 = config w1" "disk w2 = disk w1" "asked w2 = asked w1"
    "filter is_prompt (out w2) = filter is_prompt (out w1)"
    "persisted w2 = (if config_writable e then Some (config w1) else persisted w1)"
  using assms by (auto simp: main_def saveConfig_def split: if_splits)

text \<open>
  C6, as amended. Take a first run that starts with the configuration that the
  configuration file holds, with an accepted mapping that is not nil, in which every
  prompt is answered y, every commit that the resolver gives or the accepted mapping
  holds is forty hexadecimal digits, the date is free of newlines and every file visited
  can be written. It ends with the status 0. Take a second run over the same files
  against the same remote service, on any date, that starts with the configuration
  \<open>c2\<close> that the configuration file holds after the first run (the one the first run
  ended with, when the file could be written). It asks nothing and leaves every file and
  its configuration as they were: not even the date in the comment of a master line
  changes.
\<close>

theorem second_run_asks_nothing_and_changes_nothing:
  assumes "main e1 w paths = (code1, w1)"
    and "persisted w = Some (config w)"
    and "AcceptedMapping (config w) \<noteq> None"
    and "\<forall>n. answers e1 n = ''y''"
    and "\<forall>owner repo tag sha reqs.
           getCommitSha e1 owner repo tag = (Inr sha, reqs) \<longrightarrow> is_commit_hash sha"
    and "\<forall>sha\<in>ran (accepted (config w)). is_commit_hash sha"
    and "\<forall>p\<in>set paths. writable e1 p"
    and "CHR 0x0A \<notin> set (today e1)"
    and "http_Get e2 = http_Get e1" and "sort_Slice e2 = sort_Slice e1"
    and "EqualFold e2 = EqualFold e1"
    and "persisted w1 = Some c2"
    and "main e2 (w1\<lparr>config := c2\<rparr>) paths = (code2, w2)"
  shows "code1 = 0 \<and> (config_writable e1 \<longrightarrow> c2 = config w1) \<and>
         code2 = 0 \<and> disk w2 = disk w1 \<and> config w2 = c2 \<and> asked w2 = asked w1 \<and>
         filter is_prompt (out w2) = filter is_prompt (out w1)"
proof -
  obtain oc wa where wk: "walk e1 w paths = (oc, wa)"
    by (cases "walk e1 w paths") auto
  have "\<forall>p\<in>{}. file_settled e1 (config w) (disk w p)" by simp
  from first_run_walk[OF assms(4,5,8,6,3,7) this wk]
  have oc: "oc = Continue" and x: "config_ext e1 (config w) (config wa)"
    and pw: "persisted wa = persisted w"
    and st: "\<forall>p\<in>set paths. file_settled e1 (config wa) (disk wa p)"
    by auto
  note m1 = main_after_walk[OF wk[unfolded oc] assms(1)]
  have c2: "c2 = (if config_writable e1 then config w1 else config w)"
    using m1(2,6) pw assms(2,12) by (simp split: if_splits)
  have st2: "\<forall>p\<in>set paths. file_settled e1 c2 (disk w1 p)"
  proof (cases "config_writable e1")
    case True
    then show ?thesis using st c2 m1(2,3) by simp
  next
    case False
    then show ?thesis using st c2 m1(3) file_settled_back[OF _ x] by simp
  qed
  have "file_settled e2 c content = file_settled e1 c content" for c content
    unfolding file_settled_def settled_same_remote[OF assms(9,10,11)] by (rule refl)
  then have "\<forall>p\<in>set paths. file_settled e2 (config (w1\<lparr>config := c2\<rparr>))
               (disk (w1\<lparr>config := c2\<rparr>) p)"
    using st2 by simp
  then obtain wb where wk2: "walk e2 (w1\<lparr>config := c2\<rparr>) paths = (Continue, wb)"
    and q: "quiet (w1\<lparr>config := c2\<rparr>) wb"
    using settled_walk_quiet by blast
  note m2 = main_after_walk[OF wk2 assms(13)]
  show ?thesis using m1(1) c2 m2 q by (simp add: quiet_def)
qed

lemma example_first_run:
  "main example_env example_disk_world [''ci.yml''] = (0, example_after_first_run)"
  unfolding main_def walk.simps example_run
  by (simp add: saveConfig_def example_env_def example_world_def example_after_first_run_def)

lemma example_second_run:
  "main example_later_env example_after_first_run [''ci.yml''] = (0, example_after_first_run)"
  by (simp add: run_eval model_eval example_eval example_later_env_def
        example_after_first_run_def)

lemma findLatestVersionTag_sha:
  assumes "findLatestVersionTag e owner repo prefix = (Inr sha, reqs)"
  shows "\<exists>tags. http_Get e (''https://api.github.com/repos/'' @ owner @ ''/'' @ repo @ ''/tags'')
                  = Response 200 (JsonTags tags) \<and> sha \<in> snd ` set tags"
proof -
  let ?url = "''https://api.github.com/repos/'' @ owner @ ''/'' @ repo @ ''/tags''"
  obtain status b where r: "http_Get e ?url = Response status b"
    using assms by (cases "http_Get e ?url") (auto simp: findLatestVersionTag_def Let_def)
  have st: "status = 200"
    using assms r by (auto simp: findLatestVersionTag_def Let_def split: if_splits)
  obtain tags where b: "b = JsonTags tags"
    using assms r st by (cases b) (auto simp: findLatestVersionTag_def Let_def)
  obtain latestTag where "map_of tags latestTag = Some sha"
    using assms r st b
    by (auto simp: findLatestVersionTag_def Let_def split: if_splits list.splits option.splits)
  then have "(latestTag, sha) \<in> set tags" by (rule map_of_SomeD)
  then have "sha \<in> snd ` set tags" by force
  then show ?thesis using r st b by blast
qed

lemma get_object_sha:
  assumes "get_object e url = (Inr (typ, sha), reqs)"
  shows "http_Get e url = Response 200 (JsonObject typ sha)"
proof -
  obtain status b where r: "http_Get e url = Response status b"
    using assms by (cases "http_Get e url") (auto simp: get_object_def)
  have st: "status = 200"
    using assms r by (auto simp: get_object_def split: if_splits)
  have "b = JsonObject typ sha"
    using assms r st by (cases b) (auto simp: get_object_def)
  then show ?thesis using r st by simp
qed

lemma example_remote_tags:
  assumes "example_remote url = Response 200 (JsonTags tags)"
  shows "snd ` set tags \<subseteq> {sha_a, sha_b, sha_c}"
  using assms unfolding example_remote_def by (auto split: if_splits)

lemma example_remote_object:
  assumes "example_remote url = Response 200 (JsonObject typ sha)"
  shows "sha = sha_d"
  using assms unfolding example_remote_def by (simp split: if_splits)

lemma example_remote_hex:
  assumes a: "getCommitSha example_env owner repo tag = (Inr sha, reqs)"
  shows "is_commit_hash sha"
proof -
  have h: "is_commit_hash sha_a" "is_commit_hash sha_b" "is_commit_hash sha_c" "is_commit_hash sha_d"
    by (simp_all add: is_commit_hash_def sha_a_def sha_b_def sha_c_def sha_d_def)
  have g: "http_Get example_env = example_remote" by (simp add: example_env_def)
  show ?thesis
  proof (cases "tag \<noteq> ''master'' \<and> tag \<noteq> ''main''")
    case True
    then have "findLatestVersionTag example_env owner repo tag = (Inr sha, reqs)"
      using a by (simp add: getCommitSha_def)
    from findLatestVersionTag_sha[OF this] obtain tags where
      t: "example_remote (''https://api.github.com/repos/'' @ owner @ ''/'' @ repo @ ''/tags'')
            = Response 200 (JsonTags tags)" "sha \<in> snd ` set tags"
      unfolding g by blast
    have "sha \<in> {sha_a, sha_b, sha_c}"
      using t(2) example_remote_tags[OF t(1)] by auto
    then show ?thesis using h by auto
  next
    case False
    define url where "url = (if tag = ''master''
                then ''https://api.github.com/repos/'' @ owner @ ''/'' @ repo @
                     ''/git/ref/heads/master''
                else ''https://api.github.com/repos/'' @ owner @ ''/'' @ repo @
                     ''/git/ref/heads/main'')"
    obtain ty where "get_object example_env url = (Inr (ty, sha), reqs)"
      using a False unfolding getCommitSha_def Let_def url_def[symmetric]
      by (cases "get_object example_env url") (auto split: sum.splits)
    from get_object_sha[OF this] have "sha = sha_d"
      unfolding g by (rule example_remote_object)
    then show ?thesis using h by simp
  qed
qed

theorem second_run_asks_nothing_and_changes_nothing_witness:
  "fst (main example_env example_disk_world [''ci.yml'']) = 0 \<and>
   persisted (snd (main example_env example_disk_world [''ci.yml'']))
     = Some (config (snd (main example_env example_disk_world [''ci.yml'']))) \<and>
   disk (snd (main example_later_env (snd (main example_env example_disk_world [''ci.yml''])) [''ci.yml'']))
     = disk (snd (main example_env example_disk_world [''ci.yml''])) \<and>
   asked (snd (main example_later_env (snd (main example_env example_disk_world [''ci.yml''])) [''ci.yml'']))
     = asked (snd (main example_env example_disk_world [''ci.yml''])) \<and>
   asked (snd (main example_env example_disk_world [''ci.yml''])) = 2 \<and>
   fst (main example_later_env (snd (main example_env example_disk_world [''ci.yml''])) [''ci.yml'']) = 0"
proof -
  let ?w1 = "snd (main example_env example_disk_world [''ci.yml''])"
  let ?r2 = "main example_later_env (?w1\<lparr>config := config ?w1\<rparr>) [''ci.yml'']"
  have r1: "main example_env example_disk_world [''ci.yml''] = (0, ?w1)"
    by (simp add: example_first_run)
  have ld: "persisted example_disk_world = Some (config example_disk_world)"
    by (simp add: example_disk_world_def example_world_def)
  have nn: "AcceptedMapping (config example_disk_world) \<noteq> None"
    by (simp add: example_disk_world_def example_world_def)
  have yes: "\<forall>n. answers example_env n = ''y''"
    by (simp add: example_env_def)
  have hex: "\<forall>owner repo tag sha reqs.
      getCommitSha example_env owner repo tag = (Inr sha, reqs) \<longrightarrow> is_commit_hash sha"
    using example_remote_hex by blast
  have cache: "\<forall>sha\<in>ran (accepted (config example_disk_world)). is_commit_hash sha"
    by (simp add: example_disk_world_def example_world_def)
  have wr: "\<forall>p\<in>set [''ci.yml'']. writable example_env p"
    by (simp add: example_env_def)
  have date: "CHR 0x0A \<notin> set (today example_env)"
    by (simp add: example_env_def)
  have same: "http_Get example_later_env = http_Get example_env"
    "sort_Slice example_later_env = sort_Slice example_env"
    "EqualFold example_later_env = EqualFold example_env"
    by (simp_all add: example_later_env_def)
  have sv: "persisted ?w1 = Some (config ?w1)"
    by (simp add: example_first_run example_after_first_run_def)
  have r2: "?r2 = (fst ?r2, snd ?r2)" by simp
  have a: "asked ?w1 = 2"
    by (simp add: example_first_run example_after_first_run_def)
  have c1: "fst (main example_env example_disk_world [''ci.yml'']) = 0"
    by (simp add: example_first_run)
  show ?thesis
    using second_run_asks_nothing_and_changes_nothing[OF r1 ld nn yes hex cache wr date same sv r2]
      a sv c1
    by simp
qed

text \<open>
  C6 as stated fails on the date: after a first run on the first of January 2025, a
  second run on the thirtieth of June leaves the file as the first run wrote it, the
  master line still ending in \<open>#master-2025-01-01\<close>; the date of the second run is not
  written.
\<close>

theorem second_run_keeps_first_date_counterexample:
  "main example_env example_disk_world [''ci.yml''] = (0, example_after_first_run) \<and>
   today example_later_env = ''2025-06-30'' \<and>
   disk (snd (main example_later_env example_after_first_run [''ci.yml''])) ''ci.yml''
     = Some example_file_pinned \<and>
   disk (snd (main example_later_env example_after_first_run [''ci.yml''])) ''ci.yml''
     \<noteq> Some example_file_redated"
  unfolding example_second_run example_first_run
  by (simp add: example_after_first_run_def example_later_env_def example_file_pinned_def
        example_file_redated_def)

subsection \<open>What processFile writes\<close>

lemma written_append [simp]: "written (xs @ ys) = written xs @ written ys"
  by (induction xs rule: written.induct) simp_all

lemma getCommitSha_written: "written (snd (getCommitSha e owner repo tag)) = []"
proof (cases "tag \<noteq> ''master'' \<and> tag \<noteq> ''main''")
  case True
  then show ?thesis using findLatestVersionTag_reqs by (simp add: getCommitSha_def)
next
  case False
  define url where "url = (if tag = ''master''
                then ''https://api.github.com/repos/'' @ owner @ ''/'' @ repo @
                     ''/git/ref/heads/master''
                else ''https://api.github.com/repos/'' @ owner @ ''/'' @ repo @
                     ''/git/ref/heads/main'')"
  have "snd (getCommitSha e owner repo tag) = snd (get_object e url)"
    using False unfolding getCommitSha_def Let_def url_def[symmetric]
    by (cases "get_object e url") (auto split: sum.splits)
  then show ?thesis by (simp add: get_object_reqs)
qed

lemma process_line_written:
  assumes "process_line e filePath w line = (oc, w', line', changed)"
  shows "written (out w') = written (out w)"
proof -
  have r: "written reqs = []" if "getCommitSha e owner repo tag = (res, reqs)"
    for owner repo tag res reqs
    using getCommitSha_written[of e owner repo tag] that by simp
  show ?thesis
    using assms by (cases rule: process_line_cases) (auto simp: r)
qed

lemma resolveTag_reqs: "snd (resolveTag e owner repo sha) = [HttpGet (tag_url owner repo sha)]"
proof -
  have "snd (resolveTag e owner repo sha) = snd (get_object e (tag_url owner repo sha))"
    unfolding resolveTag_def
    by (cases "get_object e (tag_url owner repo sha)") (auto split: sum.splits)
  then show ?thesis by (simp add: get_object_reqs)
qed

lemma getCommitSha_loop_written:
  assumes "getCommitSha_loop e owner repo refType commitSha weirdMapping reqs = Some y"
  shows "written (snd y) = written reqs"
proof (rule getCommitSha_loop.raw_induct[where P =
         "\<lambda>e owner repo refType commitSha weirdMapping reqs y. written (snd y) = written reqs",
       OF _ assms])
  fix loop e owner repo refType commitSha weirdMapping reqs y
  assume 1: "\<And>e owner repo refType commitSha weirdMapping reqs y.
       loop e owner repo refType commitSha weirdMapping reqs = Some y
         \<Longrightarrow> written (snd y) = written reqs"
    "(if refType = ''tag'' then
        (case resolveTag e owner repo commitSha of
           (Inl err, r1) \<Rightarrow> Some (Inl err, reqs @ r1)
         | (Inr resolvedSha, r1) \<Rightarrow>
             (let url = tag_url owner repo resolvedSha
              in case http_Get e url of
                   Failed \<Rightarrow> Some (Inl TransportError, reqs @ r1 @ [HttpGet url])
                 | Response status b \<Rightarrow>
                     if status \<noteq> 200
                     then Some (Inr (resolvedSha, True), reqs @ r1 @ [HttpGet url])
                     else (case decode_object b of
                             None \<Rightarrow> Some (Inl DecodeError, reqs @ r1 @ [HttpGet url])
                           | Some (typ, target) \<Rightarrow>
                               if typ = ''tag''
                               then loop e owner repo typ resolvedSha True
                                      (reqs @ r1 @ [HttpGet url])
                               else Some (Inr (resolvedSha, True),
                                          reqs @ r1 @ [HttpGet url]))))
      else Some (Inr (commitSha, weirdMapping), reqs)) = Some y"
  show "written (snd y) = written reqs"
  proof (cases "refType = ''tag''")
    case False
    then show ?thesis using 1(2) by auto
  next
    case True
    obtain res r1 where rt: "resolveTag e owner repo commitSha = (res, r1)"
      by (cases "resolveTag e owner repo commitSha") auto
    have r1: "written r1 = []"
      using resolveTag_reqs[of e owner repo commitSha] rt by simp
    show ?thesis
    proof (cases res)
      case (Inl err)
      then show ?thesis using 1(2) True rt r1 by auto
    next
      case (Inr resolvedSha)
      show ?thesis
        using 1(2) True rt r1 Inr
        by (auto simp: Let_def split: reply.splits if_splits option.splits dest!: 1(1))
    qed
  qed
qed

lemma getCommitSha_nested_written:
  assumes "getCommitSha_nested e owner repo tag = Some (res, evs)"
  shows "written evs = []"
proof -
  define url where "url =
            (if tag = ''master''
             then ''https://api.github.com/repos/'' @ owner @ ''/'' @ repo @
                  ''/git/ref/heads/master''
             else ''https://api.github.com/repos/'' @ owner @ ''/'' @ repo @
                  ''/git/ref/tags/'' @ tag)"
  obtain r reqs where g: "get_object e url = (r, reqs)" by (cases "get_object e url") auto
  have w0: "written reqs = []" using get_object_reqs[of e url] g by simp
  show ?thesis
  proof (cases r)
    case (Inl err)
    then show ?thesis
      using assms g w0 unfolding getCommitSha_nested_def Let_def url_def[symmetric] by auto
  next
    case (Inr obj)
    obtain ty sha where obj: "obj = (ty, sha)" by (cases obj) auto
    show ?thesis
    proof (cases "getCommitSha_loop e owner repo ty sha False reqs")
      case None
      then show ?thesis
        using assms g Inr obj unfolding getCommitSha_nested_def Let_def url_def[symmetric] by auto
    next
      case (Some y)
      from getCommitSha_loop_written[OF Some] have "written (snd y) = []" using w0 by simp
      then show ?thesis
        using assms g Inr obj Some
        unfolding getCommitSha_nested_def Let_def url_def[symmetric]
        by (auto split: sum.splits prod.splits if_splits)
    qed
  qed
qed

lemma process_line_first_frame:
  assumes "process_line_first e filePath w line = Some (oc, w', line', changed)"
  shows "disk w' = disk w" and "written (out w') = written (out w)"
    and "changed \<Longrightarrow> rewritten_first_from e line line'"
    and "\<not> changed \<Longrightarrow> line' = line"
proof -
  have all: "disk w' = disk w \<and> written (out w') = written (out w) \<and>
     (changed \<longrightarrow> rewritten_first_from e line line') \<and> (\<not> changed \<longrightarrow> line' = line)"
  proof (cases "usageRegex line")
    case None
    then show ?thesis using assms by (simp add: process_line_first_def)
  next
    case (Some g)
    obtain owner repo tag where g: "g = (owner, repo, tag)" by (cases g) auto
    note m = Some[unfolded g]
    show ?thesis
    proof (cases "isAllowedOrg e (config w) owner \<or> is_commit_hash tag")
      case True
      then show ?thesis using assms m by (simp add: process_line_first_def)
    next
      case False
      show ?thesis
      proof (cases "accepted (config w) (owner @ ''/'' @ repo @ ''@'' @ tag)")
        case (Some commitSha)
        then show ?thesis
          using assms m False
          by (auto simp: process_line_first_def rewritten_first_from_def)
      next
        case None
        note nk = None
        show ?thesis
        proof (cases "getCommitSha_nested e owner repo tag")
          case None
          then show ?thesis using assms m False nk by (simp add: process_line_first_def)
        next
          case (Some y)
          obtain res reqs where y: "y = (res, reqs)" by (cases y) auto
          have wr: "written reqs = []"
            using getCommitSha_nested_written[OF Some[unfolded y]] .
          show ?thesis
          proof (cases res)
            case (Inl err)
            then show ?thesis
              using assms m False nk Some y wr by (auto simp: process_line_first_def)
          next
            case (Inr commitSha)
            then show ?thesis
              using assms m False nk Some y wr
              by (auto simp: process_line_first_def Let_def saveConfig_def
                    rewritten_first_from_def split: if_splits option.splits)
          qed
        qed
      qed
    qed
  qed
  show "disk w' = disk w" and "written (out w') = written (out w)"
    and "changed \<Longrightarrow> rewritten_first_from e line line'"
    and "\<not> changed \<Longrightarrow> line' = line"
    using all by auto
qed

lemma process_lines_written:
  assumes "process_lines e filePath w ls = (oc, w', ls', changed)"
  shows "written (out w') = written (out w)"
  using assms
proof (induction ls arbitrary: w oc w' ls' changed)
  case Nil
  then show ?case by simp
next
  case (Cons l ls)
  obtain oc1 w1 l1 ch1 where s: "process_line e filePath w l = (oc1, w1, l1, ch1)"
    by (cases "process_line e filePath w l") auto
  note f = process_line_written[OF s]
  show ?case
  proof (cases "oc1 = Continue")
    case False
    then have "w' = w1" using Cons.prems s by (cases oc1; simp)
    then show ?thesis using f by simp
  next
    case True
    obtain oc2 w2 ls2 ch2 where t: "process_lines e filePath w1 ls = (oc2, w2, ls2, ch2)"
      by (cases "process_lines e filePath w1 ls") auto
    have "w' = w2" using Cons.prems s t True by simp
    then show ?thesis using Cons.IH[OF t] f by simp
  qed
qed

lemma written_back_same:
  assumes "disk w' = disk w" and "written (out w') = written (out w)"
  shows "written_back rw w filePath w'"
  using assms by (simp add: written_back_def)

lemma written_back_write:
  assumes d: "disk w1 = disk w" and o: "written (out w1) = written (out w)"
    and i: "disk w filePath = Some inputBytes"
    and r: "list_all2 (\<lambda>l l'. l' = l \<or> rw l l') (Split (CHR 0x0A) inputBytes) ls1"
    and c: "\<exists>i<length (Split (CHR 0x0A) inputBytes). rw (Split (CHR 0x0A) inputBytes ! i) (ls1 ! i)"
  shows "written_back rw w filePath
           (emit [Updated filePath] (w1\<lparr>disk := (disk w1)(filePath \<mapsto> Join (CHR 0x0A) ls1)\<rparr>))"
proof -
  let ?w' = "emit [Updated filePath] (w1\<lparr>disk := (disk w1)(filePath \<mapsto> Join (CHR 0x0A) ls1)\<rparr>)"
  have len: "length ls1 = length (Split (CHR 0x0A) inputBytes)"
    using r by (simp add: list_all2_lengthD)
  have a: "\<forall>p. p \<noteq> filePath \<longrightarrow> disk ?w' p = disk w p" using d by simp
  have b: "disk ?w' filePath = Some (Join (CHR 0x0A) ls1)" by simp
  have e: "written (out ?w') = written (out w) @ [filePath]" using o by simp
  have f: "\<forall>i<length ls1.
             ls1 ! i = Split (CHR 0x0A) inputBytes ! i \<or>
             rw (Split (CHR 0x0A) inputBytes ! i) (ls1 ! i)"
    using r len by (simp add: list_all2_conv_all_nth)
  have g: "\<exists>i<length ls1. rw (Split (CHR 0x0A) inputBytes ! i) (ls1 ! i)"
    using c len by simp
  show ?thesis
    unfolding written_back_def using a i b e len f g by blast
qed

lemma processFile_frame:
  assumes "processFile e w filePath = (oc, w')"
  shows "written_back (rewritten_from e) w filePath w'"
proof -
  define w0 where "w0 = (if verbose e then emit [Processing filePath] w else w)"
  have d0: "disk w0 = disk w" and o0: "written (out w0) = written (out w)"
    by (simp_all add: w0_def)
  show ?thesis
  proof (cases "disk w filePath")
    case None
    then have "w' = emit [FileError filePath] w0"
      using assms d0 by (simp add: processFile_def Let_def w0_def[symmetric])
    then show ?thesis using d0 o0 by (intro written_back_same) simp_all
  next
    case (Some inputBytes)
    obtain oc1 w1 ls1 ch1 where
      pl: "process_lines e filePath w0 (Split (CHR 0x0A) inputBytes) = (oc1, w1, ls1, ch1)"
      by (cases "process_lines e filePath w0 (Split (CHR 0x0A) inputBytes)") auto
    note fr = process_lines_frame[OF pl]
    have d1: "disk w1 = disk w" using fr d0 by simp
    have o1: "written (out w1) = written (out w)"
      using process_lines_written[OF pl] o0 by simp
    consider (wr) "oc1 = Continue" "ch1" "writable e filePath"
      | (other) "\<not> (oc1 = Continue \<and> ch1 \<and> writable e filePath)" by blast
    then show ?thesis
    proof cases
      case wr
      then have w': "w' = emit [Updated filePath]
                        (w1\<lparr>disk := (disk w1)(filePath \<mapsto> Join (CHR 0x0A) ls1)\<rparr>)"
        using assms Some d0 pl by (simp add: processFile_def Let_def w0_def[symmetric])
      have r: "list_all2 (\<lambda>l l'. l' = l \<or> rewritten_from e l l') (Split (CHR 0x0A) inputBytes) ls1"
        using fr by simp
      have c: "\<exists>i<length (Split (CHR 0x0A) inputBytes).
                 rewritten_from e (Split (CHR 0x0A) inputBytes ! i) (ls1 ! i)"
        using fr wr(2) by simp
      show ?thesis unfolding w' by (rule written_back_write[OF d1 o1 Some r c])
    next
      case other
      then have "disk w' = disk w1 \<and> written (out w') = written (out w1)"
        using assms Some d0 pl
        by (cases oc1) (auto simp: processFile_def Let_def w0_def[symmetric] split: if_splits)
      then show ?thesis using d1 o1 by (intro written_back_same) simp_all
    qed
  qed
qed

lemma process_lines_first_frame:
  assumes "process_lines_first e filePath w ls = Some (oc, w', ls', changed)"
  shows "disk w' = disk w \<and> written (out w') = written (out w) \<and>
         list_all2 (\<lambda>l l'. l' = l \<or> rewritten_first_from e l l') ls ls' \<and>
         (changed \<longrightarrow> (\<exists>i<length ls. rewritten_first_from e (ls ! i) (ls' ! i)))"
  using assms
proof (induction ls arbitrary: w oc w' ls' changed)
  case Nil
  then show ?case by simp
next
  case (Cons l ls)
  obtain oc1 w1 l1 ch1 where s: "process_line_first e filePath w l = Some (oc1, w1, l1, ch1)"
    using Cons.prems by (cases "process_line_first e filePath w l") auto
  note f = process_line_first_frame[OF s]
  have rel1: "l1 = l \<or> rewritten_first_from e l l1" using f(3,4) by (cases ch1) auto
  show ?case
  proof (cases "oc1 = Continue")
    case False
    then have r: "oc = oc1" "w' = w1" "ls' = l1 # ls" "changed = ch1"
      using Cons.prems s by (cases oc1; simp)+
    have "list_all2 (\<lambda>l l'. l' = l \<or> rewritten_first_from e l l') ls ls"
      by (simp add: list_all2_same)
    moreover have "changed \<longrightarrow>
        (\<exists>i<length (l # ls). rewritten_first_from e ((l # ls) ! i) (ls' ! i))"
      using r f(3) by (intro impI exI[of _ 0]) simp
    ultimately show ?thesis using r f(1,2) rel1 by simp
  next
    case True
    obtain oc2 w2 ls2 ch2 where
      t: "process_lines_first e filePath w1 ls = Some (oc2, w2, ls2, ch2)"
      using Cons.prems s True by (cases "process_lines_first e filePath w1 ls") auto
    have r: "oc = oc2" "w' = w2" "ls' = l1 # ls2" "changed = (ch1 \<or> ch2)"
      using Cons.prems s t True by auto
    note ih = Cons.IH[OF t]
    have ex: "changed \<longrightarrow>
        (\<exists>i<length (l # ls). rewritten_first_from e ((l # ls) ! i) (ls' ! i))"
    proof
      assume "changed"
      then consider "ch1" | "ch2" using r by auto
      then show "\<exists>i<length (l # ls). rewritten_first_from e ((l # ls) ! i) (ls' ! i)"
      proof cases
        case 1
        then show ?thesis using f(3) r by (intro exI[of _ 0]) simp
      next
        case 2
        then obtain i where "i < length ls" "rewritten_first_from e (ls ! i) (ls2 ! i)"
          using ih by blast
        then show ?thesis using r by (intro exI[of _ "Suc i"]) simp
      qed
    qed
    show ?thesis using r ih f(1,2) rel1 ex by simp
  qed
qed

lemma processFile_first_frame:
  assumes "processFile_first e w filePath = Some (oc, w')"
  shows "written_back (rewritten_first_from e) w filePath w'"
proof -
  define w0 where "w0 = (if verbose e then emit [Processing filePath] w else w)"
  have d0: "disk w0 = disk w" and o0: "written (out w0) = written (out w)"
    by (simp_all add: w0_def)
  show ?thesis
  proof (cases "disk w filePath")
    case None
    then have "w' = emit [FileError filePath] w0"
      using assms d0 by (simp add: processFile_first_def Let_def w0_def[symmetric])
    then show ?thesis using d0 o0 by (intro written_back_same) simp_all
  next
    case (Some inputBytes)
    obtain oc1 w1 ls1 ch1 where
      pl: "process_lines_first e filePath w0 (Split (CHR 0x0A) inputBytes)
             = Some (oc1, w1, ls1, ch1)"
      using assms Some d0
      by (cases "process_lines_first e filePath w0 (Split (CHR 0x0A) inputBytes)")
         (auto simp: processFile_first_def Let_def w0_def[symmetric])
    note fr = process_lines_first_frame[OF pl]
    have d1: "disk w1 = disk w" using fr d0 by simp
    have o1: "written (out w1) = written (out w)" using fr o0 by simp
    consider (wr) "oc1 = Continue" "ch1" "writable e filePath"
      | (other) "\<not> (oc1 = Continue \<and> ch1 \<and> writable e filePath)" by blast
    then show ?thesis
    proof cases
      case wr
      then have w': "w' = emit [Updated filePath]
                        (w1\<lparr>disk := (disk w1)(filePath \<mapsto> Join (CHR 0x0A) ls1)\<rparr>)"
        using assms Some d0 pl by (simp add: processFile_first_def Let_def w0_def[symmetric])
      have r: "list_all2 (\<lambda>l l'. l' = l \<or> rewritten_first_from e l l')
                 (Split (CHR 0x0A) inputBytes) ls1"
        using fr by simp
      have c: "\<exists>i<length (Split (CHR 0x0A) inputBytes).
                 rewritten_first_from e (Split (CHR 0x0A) inputBytes ! i) (ls1 ! i)"
        using fr wr(2) by simp
      show ?thesis unfolding w' by (rule written_back_write[OF d1 o1 Some r c])
    next
      case other
      then have "disk w' = disk w1 \<and> written (out w') = written (out w1)"
        using assms Some d0 pl
        by (cases oc1)
           (auto simp: processFile_first_def Let_def w0_def[symmetric] split: if_splits)
      then show ?thesis using d1 o1 by (intro written_back_same) simp_all
    qed
  qed
qed

lemma rewritten_line_end:
  assumes m: "usageRegex line = Some (owner, repo, tag)" and d: "CHR 0x0D \<notin> set (today e)"
  shows "last (ws @ newUsage e owner repo commitSha tag) \<noteq> CHR 0x0D"
proof -
  note g = usageRegex_groups[OF m]
  have ne: "versionTag e tag \<noteq> []" by (simp add: versionTag_def)
  have "last (versionTag e tag) \<noteq> CHR 0x0D"
  proof (cases "tag = ''master''")
    case True
    show ?thesis
    proof (cases "today e = []")
      case True
      then show ?thesis using \<open>tag = ''master''\<close> by (simp add: versionTag_def)
    next
      case False
      then have "last (today e) \<in> set (today e)" by simp
      then have "last (today e) \<noteq> CHR 0x0D" using d by auto
      then show ?thesis using False \<open>tag = ''master''\<close> by (simp add: versionTag_def)
    qed
  next
    case False
    have "last tag \<in> set tag" using g(5) by simp
    then have "\<not> re_space (last tag)" using g(6) by blast
    then have "last tag \<noteq> CHR 0x0D" by (auto simp: re_space_def)
    then show ?thesis using False g(5) by (simp add: versionTag_def)
  qed
  moreover have "last (ws @ newUsage e owner repo commitSha tag) = last (versionTag e tag)"
    using ne by (simp add: newUsage_def)
  ultimately show ?thesis by simp
qed

lemma example_crlf_run:
  "processFile example_env example_crlf_world ''ci.yml'' =
     (Continue,
      example_world
        \<lparr>config := \<lparr>AllowedOrgs = [''actions''],
                     AcceptedMapping = Some [''acme/build@v2'' \<mapsto> sha_b]\<rparr>,
         asked := 1,
         disk := [''ci.yml'' \<mapsto>
                    ''steps:'' @ [CHR 0x0D, CHR 0x0A] @
                    ''    uses: acme/build@'' @ sha_b @ '' #v2'' @ [CHR 0x0A]],
         out := [Separator, HttpGet ''https://api.github.com/repos/acme/build/tags'',
                 Prompt ''ci.yml'' (''    uses: acme/build@v2'' @ [CHR 0x0D])
                   ''https://github.com/acme/build/releases/tag/v2''
                   (''uses: acme/build@'' @ sha_b @ '' #v2''),
                 Updated ''ci.yml'']\<rparr>)"
  by (simp add: processFile_def example_crlf_world_def example_crlf_file_def model_eval
        example_eval)

lemma example_first_master:
  "process_line_first example_env ''ci.yml'' example_world ''    uses: acme/build@master'' =
     Some (Continue,
      example_world
        \<lparr>config := \<lparr>AllowedOrgs = [''actions''],
                     AcceptedMapping = Some [''acme/build@master'' \<mapsto> sha_d]\<rparr>,
         asked := 1,
         out := [Separator,
                 HttpGet ''https://api.github.com/repos/acme/build/git/ref/heads/master'',
                 Prompt ''ci.yml'' ''    uses: acme/build@master''
                   ''https://github.com/acme/build/commits/master/''
                   (''uses: acme/build@'' @ sha_d @ '' #master-2025-01-01'')]\<rparr>,
      ''uses: acme/build@'' @ sha_d @ '' #master-2025-01-01'', True)"
  by (simp add: process_line_first_def getCommitSha_nested_def getCommitSha_loop.simps
        model_eval example_eval)

text \<open>
  C7 as stated fails in two places. In a file with carriage returns before its newlines
  the rewritten line loses its carriage return, so that the file comes out with the two
  conventions mixed; and the first revision writes the new usage text at the start of
  the line, without the four spaces that the old line began with.
\<close>

theorem rewritten_line_drops_carriage_return_counterexample:
  "disk example_crlf_world ''ci.yml''
     = Some (''steps:'' @ [CHR 0x0D, CHR 0x0A] @
             ''    uses: acme/build@v2'' @ [CHR 0x0D, CHR 0x0A]) \<and>
   disk (snd (processFile example_env example_crlf_world ''ci.yml'')) ''ci.yml''
     = Some (''steps:'' @ [CHR 0x0D, CHR 0x0A] @
             ''    uses: acme/build@'' @ sha_b @ '' #v2'' @ [CHR 0x0A]) \<and>
   map_option (fst \<circ> snd \<circ> snd)
     (process_line_first example_env ''ci.yml'' example_world ''    uses: acme/build@master'')
     = Some (''uses: acme/build@'' @ sha_d @ '' #master-2025-01-01'')"
  unfolding example_crlf_run example_first_master
  by (simp add: example_crlf_world_def example_crlf_file_def)

text \<open>
  The run of the example with a configuration whose accepted mapping is nil, as a
  configuration file without the member \<open>acceptedMapping\<close> leaves it: the first answer y
  ends the process with a panic and the status 2, no file is written and the
  configuration is not saved, so that the next run asks the same question again.
\<close>

lemma example_nil_map_run:
  "main example_env
     (example_disk_world\<lparr>config := \<lparr>AllowedOrgs = [''actions''], AcceptedMapping = None\<rparr>\<rparr>)
     [''ci.yml''] =
     (2,
      example_disk_world
        \<lparr>config := \<lparr>AllowedOrgs = [''actions''], AcceptedMapping = None\<rparr>,
         asked := 1,
         out := [Separator, HttpGet ''https://api.github.com/repos/acme/build/tags'',
                 Prompt ''ci.yml'' ''    uses: acme/build@v2''
                   ''https://github.com/acme/build/releases/tag/v2''
                   (''uses: acme/build@'' @ sha_b @ '' #v2''),
                 NilMapPanic]\<rparr>)"
  by (simp add: run_eval model_eval example_eval)

lemma leadingWhitespace_split:
  "\<exists>rest. line = leadingWhitespace line @ rest \<and>
          set (leadingWhitespace line) \<subseteq> {CHR '' '', CHR 0x09} \<and>
          (rest = [] \<or> hd rest \<notin> {CHR '' '', CHR 0x09})"
proof -
  let ?P = "\<lambda>r. r = CHR '' '' \<or> r = CHR 0x09"
  have a: "line = takeWhile ?P line @ dropWhile ?P line" by simp
  have b: "set (takeWhile ?P line) \<subseteq> {CHR '' '', CHR 0x09}"
    by (auto dest: set_takeWhileD)
  have c: "dropWhile ?P line = [] \<or> hd (dropWhile ?P line) \<notin> {CHR '' '', CHR 0x09}"
    using hd_dropWhile[of ?P line] by auto
  show ?thesis
    unfolding leadingWhitespace_def using a b c by blast
qed

lemma rewritten_from_line:
  assumes "rewritten_from e line line'"
  shows "rewritten_line True e line line'"
proof -
  obtain owner repo tag commitSha where
    r: "usageRegex line = Some (owner, repo, tag)"
       "line' = leadingWhitespace line @ newUsage e owner repo commitSha tag"
    using assms by (auto simp: rewritten_from_def)
  obtain rest where
    s: "line = leadingWhitespace line @ rest"
       "set (leadingWhitespace line) \<subseteq> {CHR '' '', CHR 0x09}"
       "rest = [] \<or> hd rest \<notin> {CHR '' '', CHR 0x09}"
    using leadingWhitespace_split[of line] by blast
  have "line' = (if True then leadingWhitespace line else []) @
                ''uses: '' @ owner @ ''/'' @ repo @ ''@'' @ commitSha @ '' '' @
                (if tag = ''master'' then ''#master-'' @ today e else ''#'' @ tag)"
    unfolding r(2) by (simp add: newUsage_def versionTag_def)
  then show ?thesis
    unfolding rewritten_line_def using r(1) s by blast
qed

lemma rewritten_first_from_line:
  assumes "rewritten_first_from e line line'"
  shows "rewritten_line False e line line'"
proof -
  obtain owner repo tag commitSha where
    r: "usageRegex line = Some (owner, repo, tag)"
       "line' = newUsage e owner repo commitSha tag"
    using assms by (auto simp: rewritten_first_from_def)
  obtain rest where
    s: "line = leadingWhitespace line @ rest"
       "set (leadingWhitespace line) \<subseteq> {CHR '' '', CHR 0x09}"
       "rest = [] \<or> hd rest \<notin> {CHR '' '', CHR 0x09}"
    using leadingWhitespace_split[of line] by blast
  have "line' = (if False then leadingWhitespace line else []) @
                ''uses: '' @ owner @ ''/'' @ repo @ ''@'' @ commitSha @ '' '' @
                (if tag = ''master'' then ''#master-'' @ today e else ''#'' @ tag)"
    unfolding r(2) by (simp add: newUsage_def versionTag_def)
  then show ?thesis
    unfolding rewritten_line_def using r(1) s by blast
qed

lemma written_back_mono:
  assumes "written_back rw w filePath w'" and "\<And>l l'. rw l l' \<Longrightarrow> rw' l l'"
  shows "written_back rw' w filePath w'"
proof -
  have a: "\<forall>p. p \<noteq> filePath \<longrightarrow> disk w' p = disk w p"
    using assms(1) unfolding written_back_def by blast
  consider (same) "disk w' = disk w" "written (out w') = written (out w)"
    | (wr) inputBytes lines' where
        "disk w filePath = Some inputBytes"
        "disk w' filePath = Some (Join (CHR 0x0A) lines')"
        "written (out w') = written (out w) @ [filePath]"
        "length lines' = length (Split (CHR 0x0A) inputBytes)"
        "\<forall>i<length lines'.
           lines' ! i = Split (CHR 0x0A) inputBytes ! i \<or>
           rw (Split (CHR 0x0A) inputBytes ! i) (lines' ! i)"
        "\<exists>i<length lines'. rw (Split (CHR 0x0A) inputBytes ! i) (lines' ! i)"
    using assms(1) unfolding written_back_def by blast
  then show ?thesis
  proof cases
    case same
    then show ?thesis using a unfolding written_back_def by blast
  next
    case wr
    have "\<forall>i<length lines'.
           lines' ! i = Split (CHR 0x0A) inputBytes ! i \<or>
           rw' (Split (CHR 0x0A) inputBytes ! i) (lines' ! i)"
      using wr(5) assms(2) by blast
    moreover have "\<exists>i<length lines'. rw' (Split (CHR 0x0A) inputBytes ! i) (lines' ! i)"
      using wr(6) assms(2) by blast
    ultimately show ?thesis
      using a wr(1,2,3,4) unfolding written_back_def by blast
  qed
qed

text \<open>
  C7, as amended. A round of the second revision that rewrites its line leaves the
  spaces and tabs that the old line starts with, followed by the new usage text, and
  nothing else of the old line: the new line does not end in a carriage return (unless
  the date ends in one). A round of the first revision leaves the new usage text alone,
  without the indentation. A round that does not rewrite leaves the line as it is. In
  both revisions processFile touches no other file, and either writes nothing and
  changes no content, or writes its own file once, with the old lines joined by newlines
  again, each one either unchanged or rewritten and at least one of them rewritten (see
  \<open>written_back\<close>). Splitting at newlines and joining again gives back every byte, so in
  the lines that are not rewritten carriage returns stay where they were, and so does a
  final newline.
\<close>

theorem rewrite_keeps_indentation_and_other_lines:
  "(process_line e filePath w line = (oc, w', line', changed) \<longrightarrow>
      (changed \<longrightarrow>
         rewritten_line True e line line' \<and>
         (CHR 0x0D \<notin> set (today e) \<longrightarrow> last line' \<noteq> CHR 0x0D)) \<and>
      (\<not> changed \<longrightarrow> line' = line)) \<and>
   (process_line_first e filePath w line = Some (oc1, w1, line1, changed1) \<longrightarrow>
      (changed1 \<longrightarrow>
         rewritten_line False e line line1 \<and>
         (CHR 0x0D \<notin> set (today e) \<longrightarrow> last line1 \<noteq> CHR 0x0D)) \<and>
      (\<not> changed1 \<longrightarrow> line1 = line)) \<and>
   (processFile e wA filePath = (ocf, wB) \<longrightarrow>
      written_back (rewritten_line True e) wA filePath wB) \<and>
   (processFile_first e wA filePath = Some (ocg, wC) \<longrightarrow>
      written_back (rewritten_line False e) wA filePath wC) \<and>
   Join (CHR 0x0A) (Split (CHR 0x0A) s) = s"
proof (intro conjI impI)
  assume a: "process_line e filePath w line = (oc, w', line', changed)"
  show "\<not> changed \<Longrightarrow> line' = line"
    using process_line_frame(3)[OF a] by simp
  assume "changed"
  then have rf: "rewritten_from e line line'" using process_line_frame(2)[OF a] by simp
  then show "rewritten_line True e line line'" by (rule rewritten_from_line)
  obtain owner repo tag commitSha where
    r: "usageRegex line = Some (owner, repo, tag)"
       "line' = leadingWhitespace line @ newUsage e owner repo commitSha tag"
    using rf by (auto simp: rewritten_from_def)
  show "last line' \<noteq> CHR 0x0D" if "CHR 0x0D \<notin> set (today e)"
    unfolding r(2) by (rule rewritten_line_end[OF r(1) that])
next
  assume a: "process_line_first e filePath w line = Some (oc1, w1, line1, changed1)"
  show "\<not> changed1 \<Longrightarrow> line1 = line"
    using process_line_first_frame(4)[OF a] by simp
  assume "changed1"
  then have rf: "rewritten_first_from e line line1"
    using process_line_first_frame(3)[OF a] by simp
  then show "rewritten_line False e line line1" by (rule rewritten_first_from_line)
  obtain owner repo tag commitSha where
    r: "usageRegex line = Some (owner, repo, tag)"
       "line1 = newUsage e owner repo commitSha tag"
    using rf by (auto simp: rewritten_first_from_def)
  show "last line1 \<noteq> CHR 0x0D" if "CHR 0x0D \<notin> set (today e)"
    unfolding r(2) using rewritten_line_end[OF r(1) that, of "[]"] by simp
next
  assume "processFile e wA filePath = (ocf, wB)"
  then have "written_back (rewritten_from e) wA filePath wB" by (rule processFile_frame)
  then show "written_back (rewritten_line True e) wA filePath wB"
    by (rule written_back_mono) (rule rewritten_from_line)
next
  assume "processFile_first e wA filePath = Some (ocg, wC)"
  then have "written_back (rewritten_first_from e) wA filePath wC"
    by (rule processFile_first_frame)
  then show "written_back (rewritten_line False e) wA filePath wC"
    by (rule written_back_mono) (rule rewritten_first_from_line)
next
  show "Join (CHR 0x0A) (Split (CHR 0x0A) s) = s" by (rule Join_Split)
qed

theorem rewrite_keeps_indentation_and_other_lines_witness:
  "(\<exists>owner repo tag commitSha ws rest.
      usageRegex ''    uses: acme/build@v2  # pin'' = Some (owner, repo, tag) \<and>
      ''    uses: acme/build@v2  # pin'' = ws @ rest \<and>
      ''    uses: acme/build@'' @ sha_b @ '' #v2''
        = ws @ ''uses: '' @ owner @ ''/'' @ repo @ ''@'' @ commitSha @ '' #'' @ tag) \<and>
   last (''    uses: acme/build@'' @ sha_b @ '' #v2'') \<noteq> CHR 0x0D \<and>
   (\<exists>owner repo tag commitSha.
      usageRegex ''    uses: acme/build@master'' = Some (owner, repo, tag) \<and>
      ''uses: acme/build@'' @ sha_d @ '' #master-2025-01-01''
        = ''uses: '' @ owner @ ''/'' @ repo @ ''@'' @ commitSha @ '' #master-'' @
          today example_env) \<and>
   disk (snd (processFile example_env example_disk_world ''ci.yml'')) ''release.yml''
     = disk example_disk_world ''release.yml'' \<and>
   disk example_disk_world ''ci.yml'' = Some example_file \<and>
   disk (snd (processFile example_env example_disk_world ''ci.yml'')) ''ci.yml''
     = Some example_file_pinned \<and>
   written (out (snd (processFile example_env example_disk_world ''ci.yml'')))
     = written (out example_disk_world) @ [''ci.yml'']"
proof -
  have r: "processFile example_env example_disk_world ''ci.yml''
     = (Continue, snd (processFile example_env example_disk_world ''ci.yml''))"
    unfolding example_run by simp
  have d1: "disk example_disk_world ''ci.yml'' = Some example_file"
    by (simp add: example_disk_world_def)
  have d2: "disk (snd (processFile example_env example_disk_world ''ci.yml'')) ''ci.yml''
       = Some example_file_pinned"
    unfolding example_run by simp
  have dt: "CHR 0x0D \<notin> set (today example_env)"
    by (simp add: example_env_def)
  have u1: "usageRegex ''    uses: acme/build@v2  # pin'' = Some (''acme'', ''build'', ''v2'')"
    by (simp add: usage_eval)
  have u2: "usageRegex ''    uses: acme/build@master'' = Some (''acme'', ''build'', ''master'')"
    by (simp add: usage_eval)
  note t = rewrite_keeps_indentation_and_other_lines[where e = example_env
      and filePath = "''ci.yml''" and w = example_world
      and line = "''    uses: acme/build@v2  # pin''" and oc = Continue
      and line' = "''    uses: acme/build@'' @ sha_b @ '' #v2''" and changed = True
      and wA = example_disk_world and ocf = Continue
      and wB = "snd (processFile example_env example_disk_world ''ci.yml'')"]
  note t1 = rewrite_keeps_indentation_and_other_lines[where e = example_env
      and filePath = "''ci.yml''" and w = example_world
      and line = "''    uses: acme/build@master''" and ?oc1.0 = Continue
      and ?line1.0 = "''uses: acme/build@'' @ sha_d @ '' #master-2025-01-01''"
      and ?changed1.0 = True]
  have "rewritten_line True example_env ''    uses: acme/build@v2  # pin''
          (''    uses: acme/build@'' @ sha_b @ '' #v2'')"
    using t example_yes by blast
  then have a: "\<exists>owner repo tag commitSha ws rest.
      usageRegex ''    uses: acme/build@v2  # pin'' = Some (owner, repo, tag) \<and>
      ''    uses: acme/build@v2  # pin'' = ws @ rest \<and>
      ''    uses: acme/build@'' @ sha_b @ '' #v2''
        = ws @ ''uses: '' @ owner @ ''/'' @ repo @ ''@'' @ commitSha @ '' #'' @ tag"
    unfolding rewritten_line_def u1 by auto
  have a2: "last (''    uses: acme/build@'' @ sha_b @ '' #v2'') \<noteq> CHR 0x0D"
    using t example_yes dt by blast
  have "rewritten_line False example_env ''    uses: acme/build@master''
          (''uses: acme/build@'' @ sha_d @ '' #master-2025-01-01'')"
    using t1 example_first_master by blast
  then have a3: "\<exists>owner repo tag commitSha.
      usageRegex ''    uses: acme/build@master'' = Some (owner, repo, tag) \<and>
      ''uses: acme/build@'' @ sha_d @ '' #master-2025-01-01''
        = ''uses: '' @ owner @ ''/'' @ repo @ ''@'' @ commitSha @ '' #master-'' @
          today example_env"
    unfolding rewritten_line_def u2 by auto
  have wb: "written_back (rewritten_line True example_env) example_disk_world ''ci.yml''
       (snd (processFile example_env example_disk_world ''ci.yml''))"
    using t r by blast
  have "\<forall>p. p \<noteq> ''ci.yml'' \<longrightarrow>
      disk (snd (processFile example_env example_disk_world ''ci.yml'')) p
        = disk example_disk_world p"
    using wb unfolding written_back_def by blast
  then have b: "disk (snd (processFile example_env example_disk_world ''ci.yml'')) ''release.yml''
        = disk example_disk_world ''release.yml''"
    by simp
  have ne: "disk (snd (processFile example_env example_disk_world ''ci.yml''))
      \<noteq> disk example_disk_world"
  proof
    assume "disk (snd (processFile example_env example_disk_world ''ci.yml''))
      = disk example_disk_world"
    then have "Some example_file_pinned = Some example_file" using d1 d2 by simp
    then show False by (simp add: example_file_pinned_def example_file_def sha_b_def)
  qed
  have c: "written (out (snd (processFile example_env example_disk_world ''ci.yml'')))
     = written (out example_disk_world) @ [''ci.yml'']"
    using wb ne unfolding written_back_def by blast
  show ?thesis
    by (intro conjI) (rule a, rule a2, rule a3, rule b, rule d1, rule d2, rule c)
qed

end
